theory Spec2Isabelle
  imports Main "HOL-Library.Word"
begin

section \<open>Slow-mode SPIN: the executor state of src/lib/spin_slow.cpp\<close>

text \<open>
  The file keeps one global executor state, protected by \<open>executorMutex\<close>. Every function
  below is the body of one critical section of the source (from \<open>executorMutex.lock()\<close> to
  the \<open>unlock()\<close> that ends it), written as a function from the state before to the state
  after. A \<open>panic\<close>, a failed \<open>assert\<close> and an unchecked index outside a
  \<open>std::array\<close> are results of their own: the process does not go on after them.
  The guards end in \<open>PIN_ExecuteAt\<close>, which does not return; the writes to the saved
  context that the source makes between the \<open>unlock()\<close> and the \<open>PIN_ExecuteAt\<close> are
  part of the same step here.
\<close>

text \<open>
  Thread ids (Pin's \<open>THREADID\<close>, \<open>curTid\<close>, \<open>executorTid\<close>) are 32-bit and \<open>-1u\<close>
  stands for no thread; the values of Pin registers and the id the uncapture hook returns are
  64-bit. \<open>ThreadId\<close> of the public interface is declared in \<open>spin.h\<close>, which is not part of
  the sources at hand, and is taken to be 32-bit like the others.
\<close>

type_synonym u32 = "32 word"
type_synonym u64 = "64 word"

text \<open>\<open>#define MAX_THREADS 2048\<close>\<close>

definition MAX_THREADS :: nat where
  "MAX_THREADS = 2048"

text \<open>\<open>enum ThreadState\<close>, in the order of the source.\<close>

datatype ThreadState = UNCAPTURED | BLOCKED | IDLE | RUNNING

text \<open>
  A Pin \<open>CONTEXT\<close>: the two tool registers claimed in \<open>init\<close> (\<open>executorReg\<close>,
  \<open>switchReg\<close>; \<open>PIN_GetContextReg\<close> and \<open>PIN_SetContextReg\<close> read and write them as
  64-bit values) and the registers of the application, which this file only copies.
\<close>

record CONTEXT =
  executorReg :: u64
  switchReg :: u64
  appRegs :: "u64 list"

text \<open>
  Modelled from the spec: \<open>assert.h\<close> and \<open>log.h\<close> are not part of the sources at hand.
  The spec (section 7) says that protocol violations (\<open>panic\<close>) and invariant assertions
  (\<open>assert\<close>) are both fatal and terminate the process. \<open>OutOfBounds\<close> stands for an index
  at or beyond \<open>MAX_THREADS\<close> into one of the \<open>std::array\<close>s, which the source does not
  check (undefined behaviour in C++).
\<close>

datatype fault = Panic | AssertFail | OutOfBounds

text \<open>The calls of the external hooks, in the order they are made (a ghost log).\<close>

datatype HookCall =
  ThreadStartCall u32
| ThreadEndCall u32
| CaptureCall u32 bool
| UncaptureCall u32 CONTEXT

text \<open>
  The globals of the source. Modelled from the spec: \<open>mutex.h\<close> is not part of the sources
  at hand; the spec (section 2) describes \<open>waitLocks\<close> as one binary wait-slot per logical
  thread, so a slot is a \<open>bool\<close>, \<open>True\<close> when locked.
\<close>

record ExecutorState =
  contexts :: "CONTEXT list"
  threadStates :: "ThreadState list"
  waitLocks :: "bool list"
  executorTid :: u32
  curTid :: u32
  capturedThreads :: u32
  executorInSyscall :: bool
  blockAfterSwitchcall :: bool
  hookLog :: "HookCall list"

text \<open>How a guard leaves its critical section.\<close>

datatype control =
  ExecuteAt CONTEXT  \<comment> \<open>\<open>PIN_ExecuteAt\<close>: the calling OS thread goes on in this context\<close>
| Park               \<comment> \<open>the calling OS thread waits in \<open>waitLocks[tid].lock()\<close>\<close>

text \<open>The three arrays have \<open>MAX_THREADS\<close> slots each.\<close>

definition wfState :: "ExecutorState \<Rightarrow> bool" where
  "wfState s \<longleftrightarrow> length (contexts s) = MAX_THREADS \<and> length (threadStates s) = MAX_THREADS \<and>
     length (waitLocks s) = MAX_THREADS"

text \<open>The zero-initialised \<open>CONTEXT\<close> of a global array.\<close>

definition zeroContext :: CONTEXT where
  "zeroContext = \<lparr>executorReg = 0, switchReg = 0, appRegs = []\<rparr>"

text \<open>\<open>init\<close>: every thread \<open>UNCAPTURED\<close>, every wait-slot locked, no executor, no current thread.\<close>

definition init :: ExecutorState where
  "init = \<lparr>contexts = replicate MAX_THREADS zeroContext,
           threadStates = replicate MAX_THREADS UNCAPTURED,
           waitLocks = replicate MAX_THREADS True,
           executorTid = - 1, curTid = - 1, capturedThreads = 0,
           executorInSyscall = False, blockAfterSwitchcall = False, hookLog = []\<rparr>"

subsection \<open>Thread start and finish\<close>

text \<open>\<open>ThreadStart\<close> returns the context the new thread starts in, with \<open>executorReg\<close> 0.\<close>

definition ThreadStart :: "u32 \<Rightarrow> CONTEXT \<Rightarrow> ExecutorState \<Rightarrow> fault + (ExecutorState \<times> CONTEXT)" where
  "ThreadStart tid ctxt s =
     (let s1 = s\<lparr>hookLog := hookLog s @ [ThreadStartCall tid]\<rparr> in
      if \<not> unat tid < MAX_THREADS then Inl OutOfBounds
      else if threadStates s1 ! unat tid \<noteq> UNCAPTURED then Inl AssertFail
      else Inr (s1, ctxt\<lparr>executorReg := 0\<rparr>))"

definition ThreadFini :: "u32 \<Rightarrow> ExecutorState \<Rightarrow> fault + ExecutorState" where
  "ThreadFini tid s =
     (if \<not> unat tid < MAX_THREADS then Inl OutOfBounds
      else if threadStates s ! unat tid = RUNNING then
        (if capturedThreads s \<noteq> 1 then Inl AssertFail
         else Inr (s\<lparr>hookLog := hookLog s @ [ThreadEndCall tid]\<rparr>))
      else if threadStates s ! unat tid \<noteq> UNCAPTURED then Inl AssertFail
      else Inr (s\<lparr>hookLog := hookLog s @ [ThreadEndCall tid]\<rparr>))"

subsection \<open>Uncapture and switch\<close>

text \<open>
  \<open>UncaptureAndSwitch\<close>, called with the lock held. The uncapture hook is the argument
  \<open>ucb\<close>; it is handed \<open>curTid\<close> and \<open>&contexts[curTid]\<close> and returns a 64-bit thread id.
\<close>

definition UncaptureAndSwitch :: "(u32 \<Rightarrow> CONTEXT \<Rightarrow> u64) \<Rightarrow> ExecutorState \<Rightarrow> fault + ExecutorState" where
  "UncaptureAndSwitch ucb s =
     (if \<not> unat (curTid s) < MAX_THREADS then Inl OutOfBounds
      else
        let nextTid = ucb (curTid s) (contexts s ! unat (curTid s));
            s1 = s\<lparr>hookLog := hookLog s @ [UncaptureCall (curTid s) (contexts s ! unat (curTid s))]\<rparr>
        in
        if \<not> unat nextTid < MAX_THREADS then Inl Panic
        else if threadStates s1 ! unat nextTid \<noteq> IDLE then Inl Panic
        else
          let s2 = s1\<lparr>capturedThreads := capturedThreads s1 - 1\<rparr> in
          if threadStates s2 ! unat (curTid s2) \<noteq> RUNNING then Inl AssertFail
          else
            let s3 = s2\<lparr>threadStates := (threadStates s2)[unat (curTid s2) := UNCAPTURED]\<rparr>;
                s4 = s3\<lparr>curTid := ucast nextTid\<rparr>
            in
            if threadStates s4 ! unat (curTid s4) \<noteq> IDLE then Inl AssertFail
            else Inr (s4\<lparr>threadStates := (threadStates s4)[unat (curTid s4) := RUNNING]\<rparr>))"

subsection \<open>The capture guard\<close>

text \<open>\<open>RunTraceGuard\<close>: \<open>!executor\<close>.\<close>

definition RunTraceGuard :: "u64 \<Rightarrow> u64" where
  "RunTraceGuard executor = (if executor = 0 then 1 else 0)"

text \<open>
  The end of \<open>TraceGuard\<close> (after the wait loop): claim the executor role and go on in the
  context of \<open>curTid\<close>.
\<close>

definition TraceGuard_becomeExecutor :: "u32 \<Rightarrow> ExecutorState \<Rightarrow> fault + (ExecutorState \<times> control)" where
  "TraceGuard_becomeExecutor tid s =
     (if executorTid s \<noteq> - 1 then Inl AssertFail
      else
        let s1 = s\<lparr>executorTid := tid\<rparr> in
        if \<not> unat (curTid s1) < MAX_THREADS then Inl AssertFail
        else
          let c = (contexts s1 ! unat (curTid s1))\<lparr>executorReg := 1, switchReg := ucast (curTid s1)\<rparr>
          in Inr (s1\<lparr>contexts := (contexts s1)[unat (curTid s1) := c]\<rparr>, ExecuteAt c))"

text \<open>
  The head of the wait loop, \<open>while (executorTid != -1u)\<close>: with an executor in place the
  thread releases the lock and parks; otherwise it falls through to the end of the guard.
\<close>

definition TraceGuard_wait :: "u32 \<Rightarrow> ExecutorState \<Rightarrow> fault + (ExecutorState \<times> control)" where
  "TraceGuard_wait tid s =
     (if executorTid s \<noteq> - 1 then Inr (s, Park) else TraceGuard_becomeExecutor tid s)"

text \<open>
  The capture proper: the caller is \<open>UNCAPTURED\<close>; \<open>captureCallback(tid, runsNext)\<close> is
  called, the count goes up, the thread becomes \<open>IDLE\<close>, or \<open>RUNNING\<close> when it is the first.
\<close>

definition TraceGuard_capture :: "u32 \<Rightarrow> ExecutorState \<Rightarrow> fault + ExecutorState" where
  "TraceGuard_capture tid s =
     (if \<not> unat tid < MAX_THREADS then Inl OutOfBounds
      else if threadStates s ! unat tid \<noteq> UNCAPTURED then Inl AssertFail
      else
        let runsNext = (capturedThreads s = 0);
            s1 = s\<lparr>hookLog := hookLog s @ [CaptureCall tid runsNext]\<rparr>;
            s2 = s1\<lparr>capturedThreads := capturedThreads s1 + 1\<rparr>;
            s3 = s2\<lparr>threadStates := (threadStates s2)[unat tid := IDLE]\<rparr>
        in
        if runsNext then
          (let s4 = s3\<lparr>threadStates := (threadStates s3)[unat tid := RUNNING]\<rparr> in
           if curTid s4 \<noteq> - 1 then Inl AssertFail
           else Inr (s4\<lparr>curTid := tid\<rparr>))
        else Inr s3)"

text \<open>The delayed uncapture, run when the executor is in a syscall it did not yield for.\<close>

definition TraceGuard_delayed :: "(u32 \<Rightarrow> CONTEXT \<Rightarrow> u64) \<Rightarrow> ExecutorState \<Rightarrow> fault + ExecutorState" where
  "TraceGuard_delayed ucb s =
     (if executorInSyscall s then
        (if curTid s \<noteq> executorTid s then Inl AssertFail
         else if capturedThreads s \<noteq> 2 then Inl AssertFail
         else
           (case UncaptureAndSwitch ucb s of
              Inl e \<Rightarrow> Inl e
            | Inr s1 \<Rightarrow> Inr (s1\<lparr>executorTid := - 1, executorInSyscall := False\<rparr>)))
      else Inr s)"

text \<open>
  \<open>TraceGuard\<close> from its entry to the first point where it gives up the lock: either a
  \<open>PIN_ExecuteAt\<close> or the first wait on \<open>waitLocks[tid]\<close>.
\<close>

definition TraceGuard :: "(u32 \<Rightarrow> CONTEXT \<Rightarrow> u64) \<Rightarrow> u32 \<Rightarrow> CONTEXT \<Rightarrow> ExecutorState \<Rightarrow> fault + (ExecutorState \<times> control)" where
  "TraceGuard ucb tid ctxt s =
     (if executorReg ctxt \<noteq> 0 then Inl AssertFail
      else if \<not> unat tid < MAX_THREADS then Inl OutOfBounds
      else
        let s1 = s\<lparr>contexts := (contexts s)[unat tid := ctxt]\<rparr> in
        if threadStates s1 ! unat tid = RUNNING then
          (if executorTid s1 \<noteq> tid then Inl AssertFail
           else if curTid s1 \<noteq> tid then Inl AssertFail
           else if capturedThreads s1 \<noteq> 1 then Inl AssertFail
           else
             let s2 = s1\<lparr>executorInSyscall := False\<rparr>;
                 c = (contexts s2 ! unat tid)\<lparr>executorReg := 1, switchReg := ucast (curTid s2)\<rparr>
             in Inr (s2\<lparr>contexts := (contexts s2)[unat tid := c]\<rparr>, ExecuteAt c))
        else
          (case TraceGuard_capture tid s1 of
             Inl e \<Rightarrow> Inl e
           | Inr s2 \<Rightarrow>
               (case TraceGuard_delayed ucb s2 of
                  Inl e \<Rightarrow> Inl e
                | Inr s3 \<Rightarrow> TraceGuard_wait tid s3)))"

text \<open>
  \<open>TraceGuard\<close> from the return of \<open>waitLocks[tid].lock()\<close> (the slot is taken again) to the
  next point where it gives up the lock: the thread takes its own syscall, claims the
  executor role, or goes round the loop and parks again.
\<close>

definition TraceGuard_wakeup :: "u32 \<Rightarrow> ExecutorState \<Rightarrow> fault + (ExecutorState \<times> control)" where
  "TraceGuard_wakeup tid s =
     (if \<not> unat tid < MAX_THREADS then Inl OutOfBounds
      else
        let s1 = s\<lparr>waitLocks := (waitLocks s)[unat tid := True]\<rparr> in
        if threadStates s1 ! unat tid = UNCAPTURED then
          (let c = (contexts s1 ! unat tid)\<lparr>executorReg := 0, switchReg := - 1\<rparr>
           in Inr (s1\<lparr>contexts := (contexts s1)[unat tid := c]\<rparr>, ExecuteAt c))
        else if executorTid s1 = - 1 then TraceGuard_becomeExecutor tid s1
        else TraceGuard_wait tid s1)"

subsection \<open>The syscall guard\<close>

text \<open>\<open>RunSyscallGuard\<close> returns its argument.\<close>

definition RunSyscallGuard :: "u64 \<Rightarrow> u64" where
  "RunSyscallGuard executor = executor"

definition SyscallGuard :: "(u32 \<Rightarrow> CONTEXT \<Rightarrow> u64) \<Rightarrow> u32 \<Rightarrow> CONTEXT \<Rightarrow> ExecutorState \<Rightarrow> fault + (ExecutorState \<times> control)" where
  "SyscallGuard ucb tid ctxt s =
     (if executorTid s \<noteq> tid then Inl AssertFail
      else if \<not> unat (curTid s) < MAX_THREADS then Inl OutOfBounds
      else
        let s1 = s\<lparr>contexts := (contexts s)[unat (curTid s) := ctxt]\<rparr> in
        if curTid s1 \<noteq> tid then
          (if \<not> 2 \<le> capturedThreads s1 then Inl AssertFail
           else
             let wakeTid = curTid s1 in
             (case UncaptureAndSwitch ucb s1 of
                Inl e \<Rightarrow> Inl e
              | Inr s2 \<Rightarrow>
                  let s3 = s2\<lparr>waitLocks := (waitLocks s2)[unat wakeTid := False]\<rparr>;
                      c = (contexts s3 ! unat (curTid s3))\<lparr>executorReg := 1, switchReg := ucast (curTid s3)\<rparr>
                  in Inr (s3\<lparr>contexts := (contexts s3)[unat (curTid s3) := c]\<rparr>, ExecuteAt c)))
        else
          (case
             (if 2 \<le> capturedThreads s1 then
                (case UncaptureAndSwitch ucb s1 of
                   Inl e \<Rightarrow> Inl e
                 | Inr s2 \<Rightarrow>
                     let s3 = s2\<lparr>executorTid := - 1\<rparr>
                     in Inr (s3\<lparr>waitLocks := (waitLocks s3)[unat (curTid s3) := False]\<rparr>))
              else if executorInSyscall s1 then Inl AssertFail
              else Inr (s1\<lparr>executorInSyscall := True\<rparr>))
           of
             Inl e \<Rightarrow> Inl e
           | Inr s4 \<Rightarrow>
               let c = (contexts s4 ! unat tid)\<lparr>executorReg := 0, switchReg := - 1\<rparr>
               in Inr (s4\<lparr>contexts := (contexts s4)[unat tid := c]\<rparr>, ExecuteAt c)))"

subsection \<open>The switch handler\<close>

text \<open>\<open>NeedsSwitch\<close>: the 64-bit register value against \<open>curTid\<close>, or the one-shot flag.\<close>

definition NeedsSwitch :: "u64 \<Rightarrow> ExecutorState \<Rightarrow> u64" where
  "NeedsSwitch nextTid s =
     (if nextTid \<noteq> ucast (curTid s) \<or> blockAfterSwitchcall s then 1 else 0)"

text \<open>
  \<open>SwitchHandler\<close>. The requested thread is \<open>switchReg\<close> of the caller's context, cut to
  32 bits. The source asserts \<open>curTid <= MAX_THREADS\<close> and then indexes with \<open>curTid\<close>.
\<close>

definition SwitchHandler :: "u32 \<Rightarrow> CONTEXT \<Rightarrow> ExecutorState \<Rightarrow> fault + (ExecutorState \<times> control)" where
  "SwitchHandler tid ctxt s =
     (let nextTid = (ucast (switchReg ctxt) :: u32) in
      if executorReg ctxt \<noteq> 1 then Inl Panic
      else if blockAfterSwitchcall s \<and> nextTid = curTid s then Inl Panic
      else if executorTid s \<noteq> tid then Inl AssertFail
      else if nextTid = curTid s then Inl AssertFail
      else if \<not> unat (curTid s) \<le> MAX_THREADS then Inl AssertFail
      else if \<not> unat nextTid < MAX_THREADS \<or> threadStates s ! unat nextTid \<noteq> IDLE then Inl Panic
      else if \<not> unat (curTid s) < MAX_THREADS then Inl OutOfBounds
      else
        let c0 = ctxt\<lparr>executorReg := 0, switchReg := - 1\<rparr>;
            s1 = s\<lparr>contexts := (contexts s)[unat (curTid s) := c0]\<rparr>
        in
        if threadStates s1 ! unat (curTid s1) \<noteq> RUNNING then Inl AssertFail
        else
          let s2 = (if \<not> blockAfterSwitchcall s1
                    then s1\<lparr>threadStates := (threadStates s1)[unat (curTid s1) := IDLE]\<rparr>
                    else s1\<lparr>threadStates := (threadStates s1)[unat (curTid s1) := BLOCKED],
                            capturedThreads := capturedThreads s1 - 1,
                            blockAfterSwitchcall := False\<rparr>);
              s3 = s2\<lparr>curTid := nextTid\<rparr>;
              s4 = s3\<lparr>threadStates := (threadStates s3)[unat (curTid s3) := RUNNING]\<rparr>;
              c = (contexts s4 ! unat (curTid s4))\<lparr>executorReg := 1, switchReg := ucast (curTid s4)\<rparr>
          in Inr (s4\<lparr>contexts := (contexts s4)[unat (curTid s4) := c]\<rparr>, ExecuteAt c))"

subsection \<open>The public interface\<close>

text \<open>\<open>getContext\<close> returns \<open>&contexts[tid]\<close>: the slot, as its index.\<close>

definition getContext :: "u32 \<Rightarrow> ExecutorState \<Rightarrow> fault + nat" where
  "getContext tid s =
     (if \<not> unat tid < MAX_THREADS then Inl AssertFail
      else if \<not> (threadStates s ! unat tid = BLOCKED \<or> threadStates s ! unat tid = IDLE)
        then Inl AssertFail
      else Inr (unat tid))"

definition blockAfterSwitch :: "ExecutorState \<Rightarrow> fault + ExecutorState" where
  "blockAfterSwitch s =
     (if blockAfterSwitchcall s then Inl AssertFail
      else Inr (s\<lparr>blockAfterSwitchcall := True\<rparr>))"

definition blockIdleThread :: "u32 \<Rightarrow> ExecutorState \<Rightarrow> fault + ExecutorState" where
  "blockIdleThread tid s =
     (if \<not> unat tid < MAX_THREADS then Inl AssertFail
      else if threadStates s ! unat tid \<noteq> IDLE then Inl AssertFail
      else if \<not> 1 < capturedThreads s then Inl AssertFail
      else Inr (s\<lparr>threadStates := (threadStates s)[unat tid := BLOCKED],
                 capturedThreads := capturedThreads s - 1\<rparr>))"

definition unblock :: "u32 \<Rightarrow> ExecutorState \<Rightarrow> fault + ExecutorState" where
  "unblock tid s =
     (if \<not> unat tid < MAX_THREADS then Inl AssertFail
      else if threadStates s ! unat tid \<noteq> BLOCKED then Inl AssertFail
      else Inr (s\<lparr>threadStates := (threadStates s)[unat tid := IDLE],
                 capturedThreads := capturedThreads s + 1\<rparr>))"

section \<open>Calls, and the OS threads that make them\<close>

subsection \<open>Sequences of calls\<close>

text \<open>
  What becomes of an OS thread after a call: the value of \<open>executorReg\<close> it runs with
  (in the program, or in a syscall), or waiting on its slot of \<open>waitLocks\<close>.
  \<open>Absent\<close> is a thread Pin has not started, or that has finished.
\<close>

datatype OsThread = Absent | Live u64 | Waiting

fun after :: "control \<Rightarrow> OsThread" where
  "after (ExecuteAt c) = Live (executorReg c)"
| "after Park = Waiting"

text \<open>
  The critical sections of the file as one datatype. A call that invokes the uncapture hook
  carries the hook, so that every call may get a different answer from it.
\<close>

datatype call =
  DoThreadStart u32 CONTEXT
| DoThreadFini u32
| DoTraceGuard "u32 \<Rightarrow> CONTEXT \<Rightarrow> u64" u32 CONTEXT
| DoTraceGuardWakeup u32
| DoSyscallGuard "u32 \<Rightarrow> CONTEXT \<Rightarrow> u64" u32 CONTEXT
| DoSwitchHandler u32 CONTEXT
| DoUncaptureAndSwitch "u32 \<Rightarrow> CONTEXT \<Rightarrow> u64"
| DoBlockAfterSwitch
| DoBlockIdleThread u32
| DoUnblock u32

definition guardResult :: "u32 \<Rightarrow> fault + (ExecutorState \<times> control) \<Rightarrow>
    fault + (ExecutorState \<times> (u32 \<times> OsThread) option)" where
  "guardResult tid r = (case r of Inl e \<Rightarrow> Inl e | Inr (s, c) \<Rightarrow> Inr (s, Some (tid, after c)))"

definition apiResult :: "fault + ExecutorState \<Rightarrow> fault + (ExecutorState \<times> (u32 \<times> OsThread) option)" where
  "apiResult r = (case r of Inl e \<Rightarrow> Inl e | Inr s \<Rightarrow> Inr (s, None))"

text \<open>
  \<open>perform\<close> runs one call on the executor state. With the new state it gives the OS
  thread whose status the call changes, if any: the caller of a guard, the thread that
  starts, the thread that finishes.
\<close>

fun perform :: "call \<Rightarrow> ExecutorState \<Rightarrow> fault + (ExecutorState \<times> (u32 \<times> OsThread) option)" where
  "perform (DoThreadStart tid ctxt) s =
     (case ThreadStart tid ctxt s of Inl e \<Rightarrow> Inl e
      | Inr (s', c) \<Rightarrow> Inr (s', Some (tid, Live (executorReg c))))"
| "perform (DoThreadFini tid) s =
     (case ThreadFini tid s of Inl e \<Rightarrow> Inl e | Inr s' \<Rightarrow> Inr (s', Some (tid, Absent)))"
| "perform (DoTraceGuard ucb tid ctxt) s = guardResult tid (TraceGuard ucb tid ctxt s)"
| "perform (DoTraceGuardWakeup tid) s = guardResult tid (TraceGuard_wakeup tid s)"
| "perform (DoSyscallGuard ucb tid ctxt) s = guardResult tid (SyscallGuard ucb tid ctxt s)"
| "perform (DoSwitchHandler tid ctxt) s = guardResult tid (SwitchHandler tid ctxt s)"
| "perform (DoUncaptureAndSwitch ucb) s = apiResult (UncaptureAndSwitch ucb s)"
| "perform DoBlockAfterSwitch s = apiResult (blockAfterSwitch s)"
| "perform (DoBlockIdleThread tid) s = apiResult (blockIdleThread tid s)"
| "perform (DoUnblock tid) s = apiResult (unblock tid s)"

text \<open>A sequence of calls, each in its own critical section, up to the first fatal one.\<close>

fun performAll :: "call list \<Rightarrow> ExecutorState \<Rightarrow> fault + ExecutorState" where
  "performAll [] s = Inr s"
| "performAll (c # cs) s =
     (case perform c s of Inl e \<Rightarrow> Inl e | Inr (s', _) \<Rightarrow> performAll cs s')"

subsection \<open>The instrumentation of \<open>Trace\<close>\<close>

text \<open>
  \<open>Trace\<close> inserts the guards with \<open>INS_InsertIfCall\<close> and \<open>INS_InsertThenCall\<close>:
  \<open>TraceGuard\<close> runs at the head of a trace when \<open>RunTraceGuard(executorReg)\<close> is not 0,
  \<open>SyscallGuard\<close> before a syscall when \<open>RunSyscallGuard(executorReg)\<close> is not 0,
  \<open>SwitchHandler\<close> at a switchpoint when \<open>NeedsSwitch(switchReg)\<close> is not 0. The
  register they test is the calling thread's own: the one \<open>ThreadStart\<close> or the last
  \<open>PIN_ExecuteAt\<close> of that thread has set. A thread that waits in \<open>TraceGuard\<close> goes on
  only when its slot of \<open>waitLocks\<close> has been unlocked. Pin calls \<open>ThreadStart\<close> for a
  thread that has not started and \<open>ThreadFini\<close> for one that has. \<open>UncaptureAndSwitch\<close> is never
  called on its own. The public interface (\<open>blockAfterSwitch\<close>, \<open>blockIdleThread\<close>,
  \<open>unblock\<close>) can be called at any time: the functions take the lock themselves and the
  source puts no condition on their caller.
\<close>

record System =
  exec :: ExecutorState
  osThreads :: "OsThread list"

definition initSystem :: System where
  "initSystem = \<lparr>exec = init, osThreads = replicate MAX_THREADS Absent\<rparr>"

fun dispatched :: "call \<Rightarrow> System \<Rightarrow> bool" where
  "dispatched (DoThreadStart tid ctxt) sys \<longleftrightarrow>
     unat tid < MAX_THREADS \<and> osThreads sys ! unat tid = Absent"
| "dispatched (DoThreadFini tid) sys \<longleftrightarrow>
     unat tid < MAX_THREADS \<and> osThreads sys ! unat tid \<noteq> Absent"
| "dispatched (DoTraceGuard ucb tid ctxt) sys \<longleftrightarrow>
     unat tid < MAX_THREADS \<and> osThreads sys ! unat tid = Live (executorReg ctxt) \<and>
     RunTraceGuard (executorReg ctxt) \<noteq> 0"
| "dispatched (DoTraceGuardWakeup tid) sys \<longleftrightarrow>
     unat tid < MAX_THREADS \<and> osThreads sys ! unat tid = Waiting \<and>
     \<not> waitLocks (exec sys) ! unat tid"
| "dispatched (DoSyscallGuard ucb tid ctxt) sys \<longleftrightarrow>
     unat tid < MAX_THREADS \<and> osThreads sys ! unat tid = Live (executorReg ctxt) \<and>
     RunSyscallGuard (executorReg ctxt) \<noteq> 0"
| "dispatched (DoSwitchHandler tid ctxt) sys \<longleftrightarrow>
     unat tid < MAX_THREADS \<and> osThreads sys ! unat tid = Live (executorReg ctxt) \<and>
     NeedsSwitch (switchReg ctxt) (exec sys) \<noteq> 0"
| "dispatched (DoUncaptureAndSwitch ucb) sys \<longleftrightarrow> False"
| "dispatched DoBlockAfterSwitch sys \<longleftrightarrow> True"
| "dispatched (DoBlockIdleThread tid) sys \<longleftrightarrow> True"
| "dispatched (DoUnblock tid) sys \<longleftrightarrow> True"

definition sysStep :: "call \<Rightarrow> System \<Rightarrow> System option" where
  "sysStep c sys =
     (if dispatched c sys then
        (case perform c (exec sys) of
           Inl e \<Rightarrow> None
         | Inr (s', None) \<Rightarrow> Some (sys\<lparr>exec := s'\<rparr>)
         | Inr (s', Some (t, st)) \<Rightarrow> Some \<lparr>exec = s', osThreads = (osThreads sys)[unat t := st]\<rparr>)
      else None)"

fun runSystem :: "call list \<Rightarrow> System \<Rightarrow> System option" where
  "runSystem [] sys = Some sys"
| "runSystem (c # cs) sys =
     (case sysStep c sys of None \<Rightarrow> None | Some sys' \<Rightarrow> runSystem cs sys')"

text \<open>
  \<open>runDisciplined\<close> is \<open>runSystem\<close> on the runs in which \<open>unblock\<close> is not called while
  \<open>executorInSyscall\<close> is set, that is, while the only captured thread is out in a syscall
  it did not yield for. The source has no such restriction (\<open>runSystem\<close> is the program);
  these runs serve to show which call breaks what \<open>TraceGuard\<close> asserts.
\<close>

fun unblockOutsideSyscall :: "call \<Rightarrow> System \<Rightarrow> bool" where
  "unblockOutsideSyscall (DoUnblock tid) sys \<longleftrightarrow> \<not> executorInSyscall (exec sys)"
| "unblockOutsideSyscall c sys \<longleftrightarrow> True"

fun runDisciplined :: "call list \<Rightarrow> System \<Rightarrow> System option" where
  "runDisciplined [] sys = Some sys"
| "runDisciplined (c # cs) sys =
     (if unblockOutsideSyscall c sys
      then (case sysStep c sys of None \<Rightarrow> None | Some sys' \<Rightarrow> runDisciplined cs sys')
      else None)"

subsection \<open>Invariants\<close>

text \<open>A thread counts as captured when it is \<open>IDLE\<close> or \<open>RUNNING\<close>.\<close>

definition captured :: "ThreadState \<Rightarrow> bool" where
  "captured t \<longleftrightarrow> t = IDLE \<or> t = RUNNING"

definition capturedCount :: "ThreadState list \<Rightarrow> nat" where
  "capturedCount ts = length (filter captured ts)"

text \<open>
  The invariant of the executor state: the arrays have their size, \<open>capturedThreads\<close> is
  the number of captured threads, and the \<open>RUNNING\<close> thread, if there is one, is \<open>curTid\<close>.
\<close>

definition stateInv :: "ExecutorState \<Rightarrow> bool" where
  "stateInv s \<longleftrightarrow> wfState s \<and> unat (capturedThreads s) = capturedCount (threadStates s) \<and>
     (\<forall>i<MAX_THREADS. (threadStates s ! i = RUNNING) = (i = unat (curTid s)))"

text \<open>The effect of a successful \<open>UncaptureAndSwitch\<close> on the thread states and the count.\<close>

definition switched :: "ExecutorState \<Rightarrow> ExecutorState \<Rightarrow> bool" where
  "switched s s' \<longleftrightarrow>
     (\<exists>n<MAX_THREADS. unat (curTid s) < MAX_THREADS \<and> n \<noteq> unat (curTid s) \<and>
        threadStates s ! unat (curTid s) = RUNNING \<and> threadStates s ! n = IDLE \<and>
        threadStates s' = (threadStates s)[unat (curTid s) := UNCAPTURED, n := RUNNING] \<and>
        unat (curTid s') = n \<and> capturedThreads s' = capturedThreads s - 1)"

text \<open>
  While the executor is out in a syscall it did not yield for, it is \<open>curTid\<close> and the
  only captured thread.
\<close>

definition syscallInv :: "ExecutorState \<Rightarrow> bool" where
  "syscallInv s \<longleftrightarrow>
     (executorInSyscall s \<longrightarrow>
        executorTid s = curTid s \<and> unat (curTid s) < MAX_THREADS \<and> capturedThreads s = 1)"

text \<open>
  The OS threads against the executor state: a thread that runs with \<open>executorReg\<close> not 0
  is the executor, and no syscall of the executor is pending; a thread that runs with
  \<open>executorReg\<close> 0 is \<open>UNCAPTURED\<close>, or is the executor in its own syscall.
\<close>

definition threadInv :: "System \<Rightarrow> bool" where
  "threadInv sys \<longleftrightarrow> length (osThreads sys) = MAX_THREADS \<and>
     (\<forall>t<MAX_THREADS. \<forall>e. osThreads sys ! t = Live e \<longrightarrow> e \<noteq> 0 \<longrightarrow>
        t = unat (executorTid (exec sys)) \<and> \<not> executorInSyscall (exec sys)) \<and>
     (\<forall>t<MAX_THREADS. osThreads sys ! t = Live 0 \<longrightarrow>
        threadStates (exec sys) ! t = UNCAPTURED \<or>
        (executorInSyscall (exec sys) \<and> t = unat (executorTid (exec sys))))"

definition sysInv :: "System \<Rightarrow> bool" where
  "sysInv sys \<longleftrightarrow> stateInv (exec sys) \<and> syscallInv (exec sys) \<and> threadInv sys"

subsection \<open>Example states and runs\<close>

text \<open>Thread 0 captured first, running and executor; thread 1 captured after it and idle.\<close>

definition twoCaptured :: ExecutorState where
  "twoCaptured = init\<lparr>threadStates := (replicate MAX_THREADS UNCAPTURED)[0 := RUNNING, 1 := IDLE],
       executorTid := 0, curTid := 0, capturedThreads := 2\<rparr>"

text \<open>Thread 0 alone: captured, running and executor.\<close>

definition oneCaptured :: ExecutorState where
  "oneCaptured = init\<lparr>threadStates := (replicate MAX_THREADS UNCAPTURED)[0 := RUNNING],
       executorTid := 0, curTid := 0, capturedThreads := 1\<rparr>"

text \<open>Thread 0 alone, out in a syscall with the uncapture delayed.\<close>

definition soleInSyscall :: ExecutorState where
  "soleInSyscall = oneCaptured\<lparr>executorInSyscall := True\<rparr>"

text \<open>An uncapture hook that answers \<open>n\<close> whatever it is given.\<close>

definition answers :: "u64 \<Rightarrow> u32 \<Rightarrow> CONTEXT \<Rightarrow> u64" where
  "answers n tid ctxt = n"

text \<open>Contexts of a caller of \<open>SwitchHandler\<close>.\<close>

definition ctxOne :: CONTEXT where "ctxOne = \<lparr>executorReg = 1, switchReg = 1, appRegs = []\<rparr>"

definition ctxSame :: CONTEXT where "ctxSame = \<lparr>executorReg = 1, switchReg = 0, appRegs = []\<rparr>"

definition ctxNotExecutor :: CONTEXT where "ctxNotExecutor = \<lparr>executorReg = 0, switchReg = 1, appRegs = []\<rparr>"

definition ctxBadTarget :: CONTEXT where "ctxBadTarget = \<lparr>executorReg = 1, switchReg = 5, appRegs = []\<rparr>"

text \<open>
  Two threads start and are captured; the executor (thread 0) takes a syscall and hands
  over to thread 1.
\<close>

definition demoCalls :: "call list" where
  "demoCalls = [DoThreadStart 0 zeroContext, DoThreadStart 1 zeroContext,
     DoTraceGuard (answers 1) 0 zeroContext, DoTraceGuard (answers 1) 1 zeroContext,
     DoSyscallGuard (answers 1) 0 (zeroContext\<lparr>executorReg := 1\<rparr>)]"

text \<open>
  Two threads start and are captured; thread 1 is blocked; thread 0, now the only captured
  thread, goes into a syscall; thread 1 is unblocked while thread 0 is still out.
\<close>

definition syscallRaceCalls :: "call list" where
  "syscallRaceCalls = [DoThreadStart 0 zeroContext, DoThreadStart 1 zeroContext,
     DoTraceGuard (answers 1) 0 zeroContext, DoTraceGuard (answers 1) 1 zeroContext,
     DoBlockIdleThread 1, DoSyscallGuard (answers 1) 0 (zeroContext\<lparr>executorReg := 1\<rparr>),
     DoUnblock 1]"

text \<open>The same, and a third thread starts while thread 0 is still out.\<close>

definition syscallRaceStartCalls :: "call list" where
  "syscallRaceStartCalls = syscallRaceCalls @ [DoThreadStart 2 zeroContext]"

text \<open>One thread starts, is captured and goes into a syscall.\<close>

definition soleSyscallCalls :: "call list" where
  "soleSyscallCalls = [DoThreadStart 0 zeroContext, DoTraceGuard (answers 0) 0 zeroContext,
     DoSyscallGuard (answers 0) 0 (zeroContext\<lparr>executorReg := 1\<rparr>)]"

section \<open>Arithmetic of thread ids and of the count\<close>

lemma unat_ucast_tid: "unat (n :: u64) < MAX_THREADS \<Longrightarrow> unat (ucast n :: u32) = unat n"
  by (simp add: MAX_THREADS_def unsigned_ucast_eq take_bit_nat_eq_self)

lemma none_eq: "(- 1 :: u32) = 4294967295"
  by simp

lemma unat_none: "unat (- 1 :: u32) = 4294967295"
  by (simp add: none_eq del: word_eq_numeral_iff_iszero)

lemma none_not_tid: "unat (t :: u32) < MAX_THREADS \<Longrightarrow> t \<noteq> - 1"
  using unat_none by (auto simp: MAX_THREADS_def)

lemma unat_inc: "unat (c :: u32) < MAX_THREADS \<Longrightarrow> unat (c + 1) = Suc (unat c)"
  using unat_add_lem [of c 1] by (simp add: MAX_THREADS_def)

lemma unat_dec: "unat (c :: u32) = Suc n \<Longrightarrow> unat (c - 1) = n"
proof -
  assume n: "unat c = Suc n"
  then have "c \<noteq> 0"
    by auto
  then show ?thesis
    using n by (simp add: unat_minus_one)
qed

lemma not_two_le_one: "\<not> 2 \<le> (1 :: u32)"
  by (simp add: word_le_nat_alt)

lemma word_one_of_bounds:
  assumes "\<not> 2 \<le> (c :: u32)" "0 < unat c"
  shows "c = 1"
proof -
  have "unat c < 2"
    using assms(1) by (simp add: word_le_nat_alt)
  with assms(2) have "unat c = 1"
    by simp
  then show ?thesis
    by (simp add: word_unat_eq_iff)
qed

lemma word_two_le_dec:
  assumes "2 \<le> (c :: u32)"
  shows "1 \<le> c - 1"
proof -
  from assms have two: "2 \<le> unat c"
    by (simp add: word_le_nat_alt)
  then obtain n where "unat c = Suc n"
    by (cases "unat c") auto
  with two have "unat (c - 1) = n" "1 \<le> n"
    using unat_dec [of c n] by auto
  then show ?thesis
    by (simp add: word_le_nat_alt)
qed

lemma word_inc_eq_two: "(c :: u32) + 1 = 2 \<Longrightarrow> c = 1"
  by (metis add_diff_cancel_right' one_add_one)

text \<open>Unfolding a run on a concrete state.\<close>

lemmas run_simps = init_def ThreadStart_def ThreadFini_def TraceGuard_def TraceGuard_capture_def
  TraceGuard_delayed_def TraceGuard_wait_def TraceGuard_becomeExecutor_def TraceGuard_wakeup_def
  SyscallGuard_def SwitchHandler_def UncaptureAndSwitch_def blockIdleThread_def unblock_def
  blockAfterSwitch_def guardResult_def apiResult_def Let_def MAX_THREADS_def zeroContext_def unat_none
  answers_def

lemmas sys_simps = sysStep_def initSystem_def RunTraceGuard_def RunSyscallGuard_def NeedsSwitch_def
  word_le_nat_alt word_less_nat_alt

section \<open>Properties of single operations\<close>

subsection \<open>Uncapture and switch\<close>

text \<open>
  C2. \<open>UncaptureAndSwitch\<close> calls the uncapture hook with \<open>curTid\<close> and the saved context
  of \<open>curTid\<close>. When the id the hook returns is at or beyond \<open>MAX_THREADS\<close>, or names a
  thread that is not \<open>IDLE\<close>, the result is a panic. Otherwise, the outgoing thread being
  \<open>RUNNING\<close>, the call succeeds: \<open>capturedThreads\<close> is one lower, the outgoing thread is
  \<open>UNCAPTURED\<close>, the returned thread is \<open>RUNNING\<close> and is the new \<open>curTid\<close>, and
  nothing else changes.
\<close>

theorem UncaptureAndSwitch_spec:
  fixes ucb :: "u32 \<Rightarrow> CONTEXT \<Rightarrow> u64"
  assumes "wfState s" "unat (curTid s) < MAX_THREADS"
  defines "nextTid \<equiv> ucb (curTid s) (contexts s ! unat (curTid s))"
  shows "(\<not> unat nextTid < MAX_THREADS \<or> threadStates s ! unat nextTid \<noteq> IDLE \<longrightarrow>
            UncaptureAndSwitch ucb s = Inl Panic) \<and>
         (unat nextTid < MAX_THREADS \<and> threadStates s ! unat nextTid = IDLE \<and>
          threadStates s ! unat (curTid s) = RUNNING \<longrightarrow>
            (\<exists>s'. UncaptureAndSwitch ucb s = Inr s' \<and>
               hookLog s' = hookLog s @ [UncaptureCall (curTid s) (contexts s ! unat (curTid s))] \<and>
               capturedThreads s' = capturedThreads s - 1 \<and>
               threadStates s' = (threadStates s)[unat (curTid s) := UNCAPTURED, unat nextTid := RUNNING] \<and>
               threadStates s' ! unat (curTid s) = UNCAPTURED \<and>
               threadStates s' ! unat nextTid = RUNNING \<and>
               curTid s' = ucast nextTid \<and> unat (curTid s') = unat nextTid \<and>
               contexts s' = contexts s \<and> waitLocks s' = waitLocks s \<and>
               executorTid s' = executorTid s \<and> executorInSyscall s' = executorInSyscall s \<and>
               blockAfterSwitchcall s' = blockAfterSwitchcall s))"
  using assms
  by (auto simp: UncaptureAndSwitch_def Let_def wfState_def unat_ucast_tid nth_list_update)

theorem UncaptureAndSwitch_spec_witness:
  "wfState twoCaptured \<and> unat (curTid twoCaptured) < MAX_THREADS \<and>
   threadStates twoCaptured ! unat (1 :: u64) = IDLE \<and>
   threadStates twoCaptured ! unat (curTid twoCaptured) = RUNNING \<and>
   (\<exists>s'. UncaptureAndSwitch (answers 1) twoCaptured = Inr s' \<and>
      hookLog s' = [UncaptureCall 0 zeroContext] \<and> capturedThreads s' = 1 \<and>
      threadStates s' ! 0 = UNCAPTURED \<and> threadStates s' ! 1 = RUNNING \<and> curTid s' = 1) \<and>
   threadStates twoCaptured ! unat (7 :: u64) = UNCAPTURED \<and>
   UncaptureAndSwitch (answers 7) twoCaptured = Inl Panic \<and>
   \<not> unat (5000 :: u64) < MAX_THREADS \<and>
   UncaptureAndSwitch (answers 5000) twoCaptured = Inl Panic"
  using UncaptureAndSwitch_spec [of twoCaptured "answers 1"]
    UncaptureAndSwitch_spec [of twoCaptured "answers 7"]
    UncaptureAndSwitch_spec [of twoCaptured "answers 5000"]
  by (auto simp: twoCaptured_def init_def wfState_def MAX_THREADS_def answers_def)

subsection \<open>The switch handler\<close>

text \<open>
  C4. On a valid switchcall (the caller is the executor, the requested thread is in range,
  \<open>IDLE\<close> and not \<open>curTid\<close>, the outgoing thread is \<open>RUNNING\<close>), \<open>SwitchHandler\<close> leaves
  the outgoing thread \<open>IDLE\<close>; with \<open>blockAfterSwitchcall\<close> set it leaves it \<open>BLOCKED\<close>
  instead, takes one off \<open>capturedThreads\<close> and clears the flag. In both cases the
  requested thread becomes \<open>RUNNING\<close> and \<open>curTid\<close>, and control goes to its saved
  context with \<open>executorReg\<close> 1 and \<open>switchReg\<close> the new \<open>curTid\<close>.
\<close>

theorem SwitchHandler_valid_switch:
  assumes "wfState s" "executorReg ctxt = 1" "executorTid s = tid"
    and "ucast (switchReg ctxt) \<noteq> curTid s"
    and "unat (ucast (switchReg ctxt) :: u32) < MAX_THREADS"
    and "threadStates s ! unat (ucast (switchReg ctxt) :: u32) = IDLE"
    and "unat (curTid s) < MAX_THREADS" "threadStates s ! unat (curTid s) = RUNNING"
  shows "\<exists>s' c. SwitchHandler tid ctxt s = Inr (s', ExecuteAt c) \<and>
           threadStates s' ! unat (curTid s) = (if blockAfterSwitchcall s then BLOCKED else IDLE) \<and>
           capturedThreads s' =
             (if blockAfterSwitchcall s then capturedThreads s - 1 else capturedThreads s) \<and>
           \<not> blockAfterSwitchcall s' \<and>
           threadStates s' ! unat (ucast (switchReg ctxt) :: u32) = RUNNING \<and>
           curTid s' = ucast (switchReg ctxt) \<and>
           c = contexts s' ! unat (curTid s') \<and>
           c = (contexts s ! unat (curTid s'))\<lparr>executorReg := 1, switchReg := ucast (curTid s')\<rparr> \<and>
           contexts s' ! unat (curTid s) = ctxt\<lparr>executorReg := 0, switchReg := - 1\<rparr> \<and>
           executorTid s' = tid \<and> executorInSyscall s' = executorInSyscall s \<and>
           hookLog s' = hookLog s"
proof -
  have ne: "unat (ucast (switchReg ctxt) :: u32) \<noteq> unat (curTid s)"
    using assms(4) by (simp add: word_unat_eq_iff)
  show ?thesis
    using assms ne
    by (simp add: SwitchHandler_def Let_def wfState_def nth_list_update)
qed

theorem SwitchHandler_valid_switch_witness:
  "wfState twoCaptured \<and> executorReg ctxOne = 1 \<and> executorTid twoCaptured = 0 \<and>
   (\<exists>s' c. SwitchHandler 0 ctxOne twoCaptured = Inr (s', ExecuteAt c) \<and>
      threadStates s' ! 0 = IDLE \<and> threadStates s' ! 1 = RUNNING \<and> capturedThreads s' = 2 \<and>
      curTid s' = 1 \<and> executorReg c = 1 \<and> switchReg c = 1) \<and>
   (\<exists>s' c. SwitchHandler 0 ctxOne (twoCaptured\<lparr>blockAfterSwitchcall := True\<rparr>) = Inr (s', ExecuteAt c) \<and>
      threadStates s' ! 0 = BLOCKED \<and> threadStates s' ! 1 = RUNNING \<and> capturedThreads s' = 1 \<and>
      curTid s' = 1 \<and> \<not> blockAfterSwitchcall s' \<and> executorReg c = 1 \<and> switchReg c = 1)"
  using SwitchHandler_valid_switch [of twoCaptured ctxOne 0]
    SwitchHandler_valid_switch [of "twoCaptured\<lparr>blockAfterSwitchcall := True\<rparr>" ctxOne 0]
  by (auto simp: twoCaptured_def init_def wfState_def MAX_THREADS_def ctxOne_def zeroContext_def)

text \<open>
  C5, as the spec states it, lets a request name the current thread when a block after the
  switch has been asked for. The source does not: with \<open>blockAfterSwitchcall\<close> set,
  \<open>NeedsSwitch\<close> dispatches the handler for a request that names \<open>curTid\<close>, and the
  handler panics.
\<close>

theorem SwitchHandler_same_thread_counterexample:
  "NeedsSwitch (switchReg ctxSame) (twoCaptured\<lparr>blockAfterSwitchcall := True\<rparr>) = 1 \<and>
   ucast (switchReg ctxSame) = curTid (twoCaptured\<lparr>blockAfterSwitchcall := True\<rparr>) \<and>
   SwitchHandler 0 ctxSame (twoCaptured\<lparr>blockAfterSwitchcall := True\<rparr>) = Inl Panic"
  by (simp add: NeedsSwitch_def SwitchHandler_def ctxSame_def twoCaptured_def init_def)

text \<open>
  C5, amended. \<open>SwitchHandler\<close> is fatal unless the caller is the executor
  (\<open>executorReg\<close> is 1, else a panic; \<open>executorTid\<close> is the caller, else a failed
  assertion), the requested thread differs from \<open>curTid\<close> (a panic when
  \<open>blockAfterSwitchcall\<close> is set, a failed assertion when it is not), and the requested
  thread is in range and \<open>IDLE\<close> (else a panic). \<open>NeedsSwitch\<close> dispatches the handler
  when the register differs from \<open>curTid\<close> or \<open>blockAfterSwitchcall\<close> is set.
\<close>

theorem SwitchHandler_preconditions:
  "(executorReg ctxt \<noteq> 1 \<longrightarrow> SwitchHandler tid ctxt s = Inl Panic) \<and>
   (executorReg ctxt = 1 \<and> ucast (switchReg ctxt) = curTid s \<and> blockAfterSwitchcall s \<longrightarrow>
      SwitchHandler tid ctxt s = Inl Panic) \<and>
   (executorReg ctxt = 1 \<and> ucast (switchReg ctxt) = curTid s \<and> \<not> blockAfterSwitchcall s \<longrightarrow>
      SwitchHandler tid ctxt s = Inl AssertFail) \<and>
   (executorReg ctxt = 1 \<and> ucast (switchReg ctxt) \<noteq> curTid s \<and> executorTid s \<noteq> tid \<longrightarrow>
      SwitchHandler tid ctxt s = Inl AssertFail) \<and>
   (executorReg ctxt = 1 \<and> ucast (switchReg ctxt) \<noteq> curTid s \<and> executorTid s = tid \<and>
    unat (curTid s) \<le> MAX_THREADS \<and>
    (\<not> unat (ucast (switchReg ctxt) :: u32) < MAX_THREADS \<or>
     threadStates s ! unat (ucast (switchReg ctxt) :: u32) \<noteq> IDLE) \<longrightarrow>
      SwitchHandler tid ctxt s = Inl Panic) \<and>
   ((\<exists>r. SwitchHandler tid ctxt s = Inr r) \<longrightarrow>
      executorReg ctxt = 1 \<and> executorTid s = tid \<and> ucast (switchReg ctxt) \<noteq> curTid s \<and>
      unat (ucast (switchReg ctxt) :: u32) < MAX_THREADS \<and>
      threadStates s ! unat (ucast (switchReg ctxt) :: u32) = IDLE) \<and>
   (NeedsSwitch v s \<noteq> 0 \<longleftrightarrow> v \<noteq> ucast (curTid s) \<or> blockAfterSwitchcall s)"
  by (auto simp: SwitchHandler_def NeedsSwitch_def Let_def split: if_splits)

theorem SwitchHandler_preconditions_witness:
  "executorReg ctxNotExecutor \<noteq> 1 \<and> SwitchHandler 0 ctxNotExecutor twoCaptured = Inl Panic \<and>
   ucast (switchReg ctxSame) = curTid twoCaptured \<and>
   SwitchHandler 0 ctxSame (twoCaptured\<lparr>blockAfterSwitchcall := True\<rparr>) = Inl Panic \<and>
   SwitchHandler 0 ctxSame twoCaptured = Inl AssertFail \<and>
   executorTid twoCaptured \<noteq> 1 \<and> SwitchHandler 1 ctxOne twoCaptured = Inl AssertFail \<and>
   threadStates twoCaptured ! unat (ucast (switchReg ctxBadTarget) :: u32) \<noteq> IDLE \<and>
   SwitchHandler 0 ctxBadTarget twoCaptured = Inl Panic \<and>
   (\<exists>r. SwitchHandler 0 ctxOne twoCaptured = Inr r) \<and>
   executorReg ctxOne = 1 \<and> executorTid twoCaptured = 0 \<and>
   threadStates twoCaptured ! unat (ucast (switchReg ctxOne) :: u32) = IDLE \<and>
   NeedsSwitch 0 twoCaptured = 0 \<and> NeedsSwitch 1 twoCaptured \<noteq> 0 \<and>
   NeedsSwitch 0 (twoCaptured\<lparr>blockAfterSwitchcall := True\<rparr>) \<noteq> 0"
proof -
  obtain r where ok: "SwitchHandler 0 ctxOne twoCaptured = Inr r"
    by (simp add: twoCaptured_def ctxOne_def run_simps)
  from SwitchHandler_preconditions [of ctxNotExecutor 0 twoCaptured 0]
    SwitchHandler_preconditions [of ctxSame 0 "twoCaptured\<lparr>blockAfterSwitchcall := True\<rparr>" 0]
    SwitchHandler_preconditions [of ctxSame 0 twoCaptured 0]
    SwitchHandler_preconditions [of ctxOne 1 twoCaptured 1]
    SwitchHandler_preconditions [of ctxBadTarget 0 twoCaptured 0]
    SwitchHandler_preconditions [of ctxOne 0 twoCaptured 1] ok
  show ?thesis
    by (simp add: twoCaptured_def init_def MAX_THREADS_def ctxNotExecutor_def ctxSame_def ctxOne_def
        ctxBadTarget_def)
qed

subsection \<open>Capture\<close>

lemma TraceGuard_first_hook:
  assumes "TraceGuard ucb tid ctxt s = Inr (s', c)" "threadStates s ! unat tid = UNCAPTURED"
  shows "take (Suc (length (hookLog s))) (hookLog s') =
           hookLog s @ [CaptureCall tid (capturedThreads s = 0)]"
proof -
  let ?s1 = "s\<lparr>contexts := (contexts s)[unat tid := ctxt]\<rparr>"
  from assms obtain s2 s3 where cap: "TraceGuard_capture tid ?s1 = Inr s2"
    and del: "TraceGuard_delayed ucb s2 = Inr s3" and wait: "TraceGuard_wait tid s3 = Inr (s', c)"
    by (auto simp: TraceGuard_def Let_def split: if_splits sum.splits)
  from cap have h2: "hookLog s2 = hookLog s @ [CaptureCall tid (capturedThreads s = 0)]"
    by (auto simp: TraceGuard_capture_def Let_def split: if_splits)
  from del obtain xs where h3: "hookLog s3 = hookLog s2 @ xs"
    by (auto simp: TraceGuard_delayed_def UncaptureAndSwitch_def Let_def split: if_splits sum.splits)
  from wait have h': "hookLog s' = hookLog s3"
    by (auto simp: TraceGuard_wait_def TraceGuard_becomeExecutor_def Let_def split: if_splits)
  show ?thesis
    by (simp add: h' h3 h2)
qed

text \<open>
  C6. For a thread that is \<open>UNCAPTURED\<close>, the capture step of \<open>TraceGuard\<close> calls the
  capture hook with the thread id and with whether \<open>capturedThreads\<close> was 0, and adds one
  to \<open>capturedThreads\<close>. The first captured thread becomes \<open>RUNNING\<close> and \<open>curTid\<close>
  (\<open>curTid\<close> must have been \<open>-1u\<close>, or an assertion fails); every other becomes
  \<open>IDLE\<close>. This hook call is the first the whole guard makes, and when no syscall of
  the executor is pending, the capture is all the guard has done to these fields when it
  gives up the lock.
\<close>

theorem TraceGuard_capture_spec:
  assumes "wfState s" "unat tid < MAX_THREADS" "threadStates s ! unat tid = UNCAPTURED"
  shows "(capturedThreads s = 0 \<and> curTid s = - 1 \<longrightarrow>
            TraceGuard_capture tid s =
              Inr (s\<lparr>hookLog := hookLog s @ [CaptureCall tid True], capturedThreads := 1,
                     threadStates := (threadStates s)[unat tid := RUNNING], curTid := tid\<rparr>)) \<and>
         (capturedThreads s = 0 \<and> curTid s \<noteq> - 1 \<longrightarrow> TraceGuard_capture tid s = Inl AssertFail) \<and>
         (capturedThreads s \<noteq> 0 \<longrightarrow>
            TraceGuard_capture tid s =
              Inr (s\<lparr>hookLog := hookLog s @ [CaptureCall tid False],
                     capturedThreads := capturedThreads s + 1,
                     threadStates := (threadStates s)[unat tid := IDLE]\<rparr>)) \<and>
         (TraceGuard ucb tid ctxt s = Inr (s', c) \<longrightarrow>
            take (Suc (length (hookLog s))) (hookLog s') =
              hookLog s @ [CaptureCall tid (capturedThreads s = 0)] \<and>
            (capturedThreads s = 0 \<longrightarrow> curTid s = - 1)) \<and>
         (\<not> executorInSyscall s \<and> TraceGuard ucb tid ctxt s = Inr (s', c) \<longrightarrow>
            hookLog s' = hookLog s @ [CaptureCall tid (capturedThreads s = 0)] \<and>
            capturedThreads s' = capturedThreads s + 1 \<and>
            threadStates s' ! unat tid = (if capturedThreads s = 0 then RUNNING else IDLE) \<and>
            curTid s' = (if capturedThreads s = 0 then tid else curTid s))"
proof -
  have "take (Suc (length (hookLog s))) (hookLog s') =
      hookLog s @ [CaptureCall tid (capturedThreads s = 0)]"
    if "TraceGuard ucb tid ctxt s = Inr (s', c)"
    using that assms(3) by (rule TraceGuard_first_hook)
  with assms show ?thesis
    by (auto simp: TraceGuard_capture_def TraceGuard_def TraceGuard_delayed_def TraceGuard_wait_def
        TraceGuard_becomeExecutor_def Let_def wfState_def split: if_splits sum.splits)
qed

theorem TraceGuard_capture_spec_witness:
  "wfState init \<and> unat (0 :: u32) < MAX_THREADS \<and> threadStates init ! unat (0 :: u32) = UNCAPTURED \<and>
   capturedThreads init = 0 \<and> curTid init = - 1 \<and>
   TraceGuard_capture 0 init =
     Inr (init\<lparr>hookLog := [CaptureCall 0 True], capturedThreads := 1,
            threadStates := (threadStates init)[0 := RUNNING], curTid := 0\<rparr>) \<and>
   (\<exists>s' c. TraceGuard (answers 0) 0 zeroContext init = Inr (s', c) \<and>
      hookLog s' = [CaptureCall 0 True] \<and> capturedThreads s' = 1 \<and>
      threadStates s' ! 0 = RUNNING \<and> curTid s' = 0) \<and>
   threadStates twoCaptured ! unat (5 :: u32) = UNCAPTURED \<and> capturedThreads twoCaptured = 2 \<and>
   TraceGuard_capture 5 twoCaptured =
     Inr (twoCaptured\<lparr>hookLog := [CaptureCall 5 False], capturedThreads := 3,
            threadStates := (threadStates twoCaptured)[5 := IDLE]\<rparr>) \<and>
   (\<exists>s' c. TraceGuard (answers 0) 5 zeroContext twoCaptured = Inr (s', c) \<and>
      hookLog s' = [CaptureCall 5 False] \<and> capturedThreads s' = 3 \<and>
      threadStates s' ! 5 = IDLE \<and> curTid s' = 0) \<and>
   (\<exists>s' c. TraceGuard (answers 1) 1 zeroContext soleInSyscall = Inr (s', c) \<and>
      take 1 (hookLog s') = [CaptureCall 1 False]) \<and>
   TraceGuard_capture 0 (init\<lparr>curTid := 3\<rparr>) = Inl AssertFail"
proof -
  obtain s1 c1 where r1: "TraceGuard (answers 0) 0 zeroContext init = Inr (s1, c1)"
    by (simp add: run_simps)
  obtain s2 c2 where r2: "TraceGuard (answers 0) 5 zeroContext twoCaptured = Inr (s2, c2)"
    by (simp add: twoCaptured_def run_simps)
  obtain s3 c3 where r3: "TraceGuard (answers 1) 1 zeroContext soleInSyscall = Inr (s3, c3)"
    by (simp add: soleInSyscall_def oneCaptured_def run_simps)
  from TraceGuard_capture_spec [of init 0 "answers 0" zeroContext s1 c1]
    TraceGuard_capture_spec [of twoCaptured 5 "answers 0" zeroContext s2 c2]
    TraceGuard_capture_spec [of soleInSyscall 1 "answers 1" zeroContext s3 c3]
    TraceGuard_capture_spec [of "init\<lparr>curTid := 3\<rparr>" 0 "answers 0" zeroContext s1 c1] r1 r2 r3
  show ?thesis
    by (simp add: twoCaptured_def oneCaptured_def soleInSyscall_def init_def wfState_def MAX_THREADS_def)
qed

subsection \<open>The delayed uncapture\<close>

text \<open>
  C3, as the spec states it, has the delayed uncapture-and-switch done by the next thread
  that enters \<open>TraceGuard\<close>. When that thread is the executor itself, back from its
  syscall and still \<open>RUNNING\<close>, the guard calls no hook and keeps \<open>executorTid\<close>: it only
  clears \<open>executorInSyscall\<close>.
\<close>

theorem deferred_uncapture_counterexample:
  "executorInSyscall soleInSyscall \<and> threadStates soleInSyscall ! unat (0 :: u32) = RUNNING \<and>
   hookLog soleInSyscall = [] \<and> executorTid soleInSyscall = 0 \<and>
   TraceGuard (answers 0) 0 zeroContext soleInSyscall =
     Inr (soleInSyscall\<lparr>contexts := (contexts soleInSyscall)[0 := zeroContext\<lparr>executorReg := 1\<rparr>],
            executorInSyscall := False\<rparr>, ExecuteAt (zeroContext\<lparr>executorReg := 1\<rparr>)) \<and>
   map_sum id (hookLog \<circ> fst) (TraceGuard (answers 0) 0 zeroContext soleInSyscall) = Inr [] \<and>
   map_sum id (executorTid \<circ> fst) (TraceGuard (answers 0) 0 zeroContext soleInSyscall) = Inr 0"
  by (simp add: soleInSyscall_def oneCaptured_def run_simps)

text \<open>
  C3, amended. When the executor is about to take a syscall as the only captured thread,
  \<open>SyscallGuard\<close> calls no hook and sets \<open>executorInSyscall\<close>, with \<open>capturedThreads\<close>
  still 1. Whenever \<open>SyscallGuard\<close> does call the uncapture hook, \<open>capturedThreads\<close> was
  at least 2 and is at least 1 afterwards. With \<open>executorInSyscall\<close> set, a thread that
  enters \<open>TraceGuard\<close> while \<open>UNCAPTURED\<close> is captured and then runs the delayed
  uncapture-and-switch for the executor: \<open>capturedThreads\<close> is 1 again, \<open>executorTid\<close>
  and \<open>executorInSyscall\<close> are cleared, and the entering thread takes the executor role.
  If the executor itself enters first, still \<open>RUNNING\<close>, no uncapture happens.
\<close>

theorem deferred_uncapture:
  assumes "wfState s" "unat tid < MAX_THREADS"
  shows "(executorTid s = tid \<and> curTid s = tid \<and> capturedThreads s = 1 \<and> \<not> executorInSyscall s \<longrightarrow>
            SyscallGuard ucb tid ctxt s =
              Inr (s\<lparr>contexts := (contexts s)[unat tid := ctxt\<lparr>executorReg := 0, switchReg := - 1\<rparr>],
                     executorInSyscall := True\<rparr>,
                   ExecuteAt (ctxt\<lparr>executorReg := 0, switchReg := - 1\<rparr>))) \<and>
         (SyscallGuard ucb tid ctxt s = Inr (s', c) \<and> hookLog s' \<noteq> hookLog s \<longrightarrow>
            2 \<le> capturedThreads s \<and> capturedThreads s' = capturedThreads s - 1 \<and>
            1 \<le> capturedThreads s') \<and>
         (executorInSyscall s \<and> threadStates s ! unat tid = UNCAPTURED \<and>
          TraceGuard ucb tid ctxt s = Inr (s', c) \<longrightarrow>
            hookLog s' = hookLog s @ [CaptureCall tid False,
              UncaptureCall (curTid s) ((contexts s)[unat tid := ctxt] ! unat (curTid s))] \<and>
            capturedThreads s = 1 \<and> capturedThreads s' = 1 \<and>
            curTid s = executorTid s \<and> threadStates s' ! unat (curTid s) = UNCAPTURED \<and>
            threadStates s' ! unat (curTid s') = RUNNING \<and>
            executorTid s' = tid \<and> \<not> executorInSyscall s' \<and>
            (\<exists>c'. c = ExecuteAt c' \<and> executorReg c' = 1)) \<and>
         (executorInSyscall s \<and> TraceGuard_delayed ucb s = Inr s' \<longrightarrow>
            executorTid s' = - 1 \<and> \<not> executorInSyscall s' \<and> capturedThreads s' = 1 \<and>
            hookLog s' = hookLog s @ [UncaptureCall (curTid s) (contexts s ! unat (curTid s))]) \<and>
         (executorInSyscall s \<and> threadStates s ! unat tid = RUNNING \<and>
          TraceGuard ucb tid ctxt s = Inr (s', c) \<longrightarrow>
            hookLog s' = hookLog s \<and> executorTid s' = tid \<and> executorTid s = tid \<and>
            \<not> executorInSyscall s' \<and> capturedThreads s' = 1 \<and>
            threadStates s' = threadStates s \<and> curTid s' = curTid s)"
proof (intro conjI impI)
  assume "executorTid s = tid \<and> curTid s = tid \<and> capturedThreads s = 1 \<and> \<not> executorInSyscall s"
  with assms show "SyscallGuard ucb tid ctxt s =
      Inr (s\<lparr>contexts := (contexts s)[unat tid := ctxt\<lparr>executorReg := 0, switchReg := - 1\<rparr>],
             executorInSyscall := True\<rparr>,
           ExecuteAt (ctxt\<lparr>executorReg := 0, switchReg := - 1\<rparr>))"
    by (simp add: SyscallGuard_def Let_def wfState_def not_two_le_one)
next
  assume a: "SyscallGuard ucb tid ctxt s = Inr (s', c) \<and> hookLog s' \<noteq> hookLog s"
  then have "2 \<le> capturedThreads s \<and> capturedThreads s' = capturedThreads s - 1"
    by (auto simp: SyscallGuard_def UncaptureAndSwitch_def Let_def split: if_splits sum.splits)
  then show "2 \<le> capturedThreads s" "capturedThreads s' = capturedThreads s - 1"
    "1 \<le> capturedThreads s'"
    using word_two_le_dec [of "capturedThreads s"] by simp_all
next
  assume a: "executorInSyscall s \<and> threadStates s ! unat tid = UNCAPTURED \<and>
      TraceGuard ucb tid ctxt s = Inr (s', c)"
  let ?goal = "hookLog s' = hookLog s @ [CaptureCall tid False,
        UncaptureCall (curTid s) ((contexts s)[unat tid := ctxt] ! unat (curTid s))] \<and>
      capturedThreads s = 1 \<and> capturedThreads s' = 1 \<and>
      curTid s = executorTid s \<and> threadStates s' ! unat (curTid s) = UNCAPTURED \<and>
      threadStates s' ! unat (curTid s') = RUNNING \<and>
      executorTid s' = tid \<and> \<not> executorInSyscall s' \<and>
      (\<exists>c'. c = ExecuteAt c' \<and> executorReg c' = 1)"
  from a assms have ?goal
    by (auto simp: TraceGuard_def TraceGuard_capture_def TraceGuard_delayed_def TraceGuard_wait_def
        TraceGuard_becomeExecutor_def UncaptureAndSwitch_def Let_def wfState_def unat_ucast_tid
        nth_list_update dest: word_inc_eq_two split: if_splits sum.splits)
  then show "hookLog s' = hookLog s @ [CaptureCall tid False,
        UncaptureCall (curTid s) ((contexts s)[unat tid := ctxt] ! unat (curTid s))]"
    "capturedThreads s = 1" "capturedThreads s' = 1" "curTid s = executorTid s"
    "threadStates s' ! unat (curTid s) = UNCAPTURED" "threadStates s' ! unat (curTid s') = RUNNING"
    "executorTid s' = tid" "\<not> executorInSyscall s'" "\<exists>c'. c = ExecuteAt c' \<and> executorReg c' = 1"
    by blast+
next
  assume a: "executorInSyscall s \<and> TraceGuard_delayed ucb s = Inr s'"
  then have "executorTid s' = - 1 \<and> \<not> executorInSyscall s' \<and> capturedThreads s' = 1 \<and>
      hookLog s' = hookLog s @ [UncaptureCall (curTid s) (contexts s ! unat (curTid s))]"
    by (auto simp: TraceGuard_delayed_def UncaptureAndSwitch_def Let_def split: if_splits sum.splits)
  then show "executorTid s' = - 1" "\<not> executorInSyscall s'" "capturedThreads s' = 1"
    "hookLog s' = hookLog s @ [UncaptureCall (curTid s) (contexts s ! unat (curTid s))]"
    by blast+
next
  assume a: "executorInSyscall s \<and> threadStates s ! unat tid = RUNNING \<and>
      TraceGuard ucb tid ctxt s = Inr (s', c)"
  then have "hookLog s' = hookLog s \<and> executorTid s' = tid \<and> executorTid s = tid \<and>
      \<not> executorInSyscall s' \<and> capturedThreads s' = 1 \<and>
      threadStates s' = threadStates s \<and> curTid s' = curTid s"
    by (auto simp: TraceGuard_def Let_def split: if_splits)
  then show "hookLog s' = hookLog s" "executorTid s' = tid" "executorTid s = tid"
    "\<not> executorInSyscall s'" "capturedThreads s' = 1" "threadStates s' = threadStates s"
    "curTid s' = curTid s"
    by blast+
qed

theorem deferred_uncapture_witness:
  "wfState oneCaptured \<and> unat (0 :: u32) < MAX_THREADS \<and>
   executorTid oneCaptured = 0 \<and> curTid oneCaptured = 0 \<and> capturedThreads oneCaptured = 1 \<and>
   \<not> executorInSyscall oneCaptured \<and>
   SyscallGuard (answers 0) 0 zeroContext oneCaptured =
     Inr (soleInSyscall\<lparr>contexts := (contexts oneCaptured)[0 := zeroContext\<lparr>switchReg := - 1\<rparr>]\<rparr>,
          ExecuteAt (zeroContext\<lparr>switchReg := - 1\<rparr>)) \<and>
   (\<exists>s' c. SyscallGuard (answers 1) 0 zeroContext twoCaptured = Inr (s', c) \<and>
      hookLog s' \<noteq> hookLog twoCaptured \<and> capturedThreads s' = 1) \<and>
   (\<exists>s' c. TraceGuard (answers 1) 1 zeroContext soleInSyscall = Inr (s', c) \<and>
      hookLog s' = [CaptureCall 1 False, UncaptureCall 0 zeroContext] \<and>
      capturedThreads s' = 1 \<and> threadStates s' ! 0 = UNCAPTURED \<and> threadStates s' ! 1 = RUNNING \<and>
      executorTid s' = 1 \<and> \<not> executorInSyscall s') \<and>
   (\<exists>s'. TraceGuard_delayed (answers 1)
        (twoCaptured\<lparr>executorInSyscall := True\<rparr>) = Inr s' \<and> executorTid s' = - 1 \<and>
      \<not> executorInSyscall s' \<and> capturedThreads s' = 1) \<and>
   (\<exists>s' c. TraceGuard (answers 0) 0 zeroContext soleInSyscall = Inr (s', c) \<and>
      hookLog s' = [] \<and> executorTid s' = 0 \<and> \<not> executorInSyscall s' \<and> capturedThreads s' = 1)"
proof -
  have wf1: "wfState oneCaptured" "wfState twoCaptured" "wfState soleInSyscall"
      "wfState (twoCaptured\<lparr>executorInSyscall := True\<rparr>)"
    and t0: "unat (0 :: u32) < MAX_THREADS" and t1: "unat (1 :: u32) < MAX_THREADS"
    by (simp_all add: oneCaptured_def twoCaptured_def soleInSyscall_def init_def wfState_def MAX_THREADS_def)
  obtain s2 c2 where r2: "SyscallGuard (answers 1) 0 zeroContext twoCaptured = Inr (s2, c2)"
    and h2: "hookLog s2 \<noteq> hookLog twoCaptured"
    by (simp add: twoCaptured_def run_simps)
  obtain s3 c3 where r3: "TraceGuard (answers 1) 1 zeroContext soleInSyscall = Inr (s3, c3)"
    and u3: "curTid s3 = 1"
    by (simp add: soleInSyscall_def oneCaptured_def run_simps)
  obtain s4 where r4: "TraceGuard_delayed (answers 1) (twoCaptured\<lparr>executorInSyscall := True\<rparr>) = Inr s4"
    by (simp add: twoCaptured_def run_simps)
  obtain s5 c5 where r5: "TraceGuard (answers 0) 0 zeroContext soleInSyscall = Inr (s5, c5)"
    by (simp add: soleInSyscall_def oneCaptured_def run_simps)
  from deferred_uncapture [OF wf1(1) t0, of "answers 0" zeroContext s2 c2]
    deferred_uncapture [OF wf1(2) t0, of "answers 1" zeroContext s2 c2]
    deferred_uncapture [OF wf1(3) t1, of "answers 1" zeroContext s3 c3]
    deferred_uncapture [OF wf1(4) t0, of "answers 1" zeroContext s4 c2]
    deferred_uncapture [OF wf1(3) t0, of "answers 0" zeroContext s5 c5]
    wf1 r2 h2 r3 u3 r4 r5
  show ?thesis
    by (simp add: oneCaptured_def twoCaptured_def soleInSyscall_def init_def MAX_THREADS_def
        zeroContext_def)
qed

subsection \<open>Suspend and resume\<close>

text \<open>
  C7. For a thread that is \<open>IDLE\<close> while more than one thread is captured,
  \<open>blockIdleThread(tid)\<close> succeeds, leaves the thread \<open>BLOCKED\<close> with the count one lower,
  and \<open>unblock(tid)\<close> after it gives back the state before, all components included.
\<close>

theorem blockIdleThread_unblock_roundtrip:
  assumes "wfState s" "unat tid < MAX_THREADS" "threadStates s ! unat tid = IDLE" "1 < capturedThreads s"
  shows "\<exists>s1. blockIdleThread tid s = Inr s1 \<and> threadStates s1 ! unat tid = BLOCKED \<and>
           capturedThreads s1 = capturedThreads s - 1 \<and> unblock tid s1 = Inr s"
proof -
  have restored: "(threadStates s)[unat tid := IDLE] = threadStates s"
    using assms(3) by (metis list_update_id)
  show ?thesis
    using assms by (simp add: blockIdleThread_def unblock_def wfState_def restored)
qed

theorem blockIdleThread_unblock_roundtrip_witness:
  "wfState twoCaptured \<and> unat (1::u32) < MAX_THREADS \<and> threadStates twoCaptured ! unat (1::u32) = IDLE \<and>
   1 < capturedThreads twoCaptured \<and>
   (\<exists>s1. blockIdleThread 1 twoCaptured = Inr s1 \<and> threadStates s1 ! unat (1::u32) = BLOCKED \<and>
      capturedThreads s1 = 1 \<and> unblock 1 s1 = Inr twoCaptured)"
  using blockIdleThread_unblock_roundtrip [of twoCaptured 1]
  by (simp add: twoCaptured_def init_def wfState_def MAX_THREADS_def)

subsection \<open>Handing out saved contexts\<close>

text \<open>
  C9. \<open>getContext(tid)\<close> returns a slot only for a thread id below \<open>MAX_THREADS\<close> whose
  state is \<open>BLOCKED\<close> or \<open>IDLE\<close>, and then it is the slot of \<open>tid\<close> itself; for a thread
  that is \<open>RUNNING\<close> or \<open>UNCAPTURED\<close>, and for an id out of range, the assertion fails.
\<close>

theorem getContext_only_blocked_or_idle:
  "(getContext tid s = Inr p \<longrightarrow>
      p = unat tid \<and> unat tid < MAX_THREADS \<and>
      (threadStates s ! unat tid = BLOCKED \<or> threadStates s ! unat tid = IDLE)) \<and>
   (unat tid < MAX_THREADS \<and> (threadStates s ! unat tid = BLOCKED \<or> threadStates s ! unat tid = IDLE)
      \<longrightarrow> getContext tid s = Inr (unat tid)) \<and>
   (threadStates s ! unat tid = RUNNING \<or> threadStates s ! unat tid = UNCAPTURED
      \<longrightarrow> getContext tid s = Inl AssertFail) \<and>
   (\<not> unat tid < MAX_THREADS \<longrightarrow> getContext tid s = Inl AssertFail)"
  by (auto simp: getContext_def)

theorem getContext_only_blocked_or_idle_witness:
  "threadStates twoCaptured ! unat (1::u32) = IDLE \<and> getContext 1 twoCaptured = Inr 1 \<and>
   threadStates twoCaptured ! unat (0::u32) = RUNNING \<and> getContext 0 twoCaptured = Inl AssertFail \<and>
   threadStates twoCaptured ! unat (7::u32) = UNCAPTURED \<and> getContext 7 twoCaptured = Inl AssertFail"
  using getContext_only_blocked_or_idle [of 1 twoCaptured 1]
    getContext_only_blocked_or_idle [of 0 twoCaptured 0]
    getContext_only_blocked_or_idle [of 7 twoCaptured 0]
  by (simp add: twoCaptured_def init_def MAX_THREADS_def)

subsection \<open>Thread finish\<close>

text \<open>
  C8. \<open>ThreadFini\<close> goes through in exactly two cases: the thread is \<open>RUNNING\<close> and
  \<open>capturedThreads\<close> is 1, or the thread is \<open>UNCAPTURED\<close>. In both the only hook called is
  the finish hook (no uncapture call is made) and nothing else of the state changes. In
  every other case an assertion fails.
\<close>

theorem ThreadFini_two_cases:
  assumes "unat tid < MAX_THREADS"
  shows "((threadStates s ! unat tid = RUNNING \<and> capturedThreads s = 1) \<or>
            threadStates s ! unat tid = UNCAPTURED \<longrightarrow>
            ThreadFini tid s = Inr (s\<lparr>hookLog := hookLog s @ [ThreadEndCall tid]\<rparr>)) \<and>
         (threadStates s ! unat tid = RUNNING \<and> capturedThreads s \<noteq> 1 \<longrightarrow>
            ThreadFini tid s = Inl AssertFail) \<and>
         (threadStates s ! unat tid = IDLE \<or> threadStates s ! unat tid = BLOCKED \<longrightarrow>
            ThreadFini tid s = Inl AssertFail)"
  using assms by (auto simp: ThreadFini_def)

theorem ThreadFini_two_cases_witness:
  "unat (0::u32) < MAX_THREADS \<and>
   ThreadFini 0 oneCaptured = Inr (oneCaptured\<lparr>hookLog := [ThreadEndCall 0]\<rparr>) \<and>
   ThreadFini 0 twoCaptured = Inl AssertFail \<and>
   ThreadFini 1 twoCaptured = Inl AssertFail \<and>
   ThreadFini 7 twoCaptured = Inr (twoCaptured\<lparr>hookLog := [ThreadEndCall 7]\<rparr>)"
  using ThreadFini_two_cases [of 0 oneCaptured] ThreadFini_two_cases [of 0 twoCaptured]
    ThreadFini_two_cases [of 1 twoCaptured] ThreadFini_two_cases [of 7 twoCaptured]
  by (simp add: twoCaptured_def oneCaptured_def init_def MAX_THREADS_def)

section \<open>The count of captured threads\<close>

lemma capturedCount_update:
  "i < length ts \<Longrightarrow>
   capturedCount (ts[i := v]) + (if captured (ts ! i) then 1 else 0) =
   capturedCount ts + (if captured v then 1 else 0)"
proof (induction ts arbitrary: i)
  case Nil
  then show ?case by simp
next
  case (Cons t ts)
  show ?case
  proof (cases i)
    case 0
    then show ?thesis by (simp add: capturedCount_def)
  next
    case (Suc j)
    with Cons.prems have "j < length ts" by simp
    from Cons.IH [OF this] Suc show ?thesis by (simp add: capturedCount_def)
  qed
qed

lemma capturedCount_le: "capturedCount ts \<le> length ts"
  by (simp add: capturedCount_def)

lemma capturedCount_gain:
  "i < length ts \<Longrightarrow> \<not> captured (ts ! i) \<Longrightarrow> captured v \<Longrightarrow>
   capturedCount (ts[i := v]) = Suc (capturedCount ts)"
  using capturedCount_update [of i ts v] by simp

lemma capturedCount_loss:
  "i < length ts \<Longrightarrow> captured (ts ! i) \<Longrightarrow> \<not> captured v \<Longrightarrow>
   Suc (capturedCount (ts[i := v])) = capturedCount ts"
  using capturedCount_update [of i ts v] by simp

lemma capturedCount_keep:
  "i < length ts \<Longrightarrow> captured (ts ! i) = captured v \<Longrightarrow>
   capturedCount (ts[i := v]) = capturedCount ts"
  using capturedCount_update [of i ts v] by (simp split: if_splits)

lemma capturedCount_room:
  "i < length ts \<Longrightarrow> \<not> captured (ts ! i) \<Longrightarrow> capturedCount ts < length ts"
  using capturedCount_gain [of i ts IDLE] capturedCount_le [of "ts[i := IDLE]"]
  by (simp add: captured_def)

lemma capturedCount_pos:
  "i < length ts \<Longrightarrow> captured (ts ! i) \<Longrightarrow> 0 < capturedCount ts"
  using capturedCount_loss [of i ts UNCAPTURED] by (simp add: captured_def)

lemma capturedCount_none:
  "capturedCount ts = 0 \<Longrightarrow> i < length ts \<Longrightarrow> \<not> captured (ts ! i)"
  using capturedCount_pos [of i ts] by auto

lemma capturedCount_two:
  assumes "i < length ts" "j < length ts" "i \<noteq> j" "captured (ts ! i)" "captured (ts ! j)"
  shows "2 \<le> capturedCount ts"
proof -
  have "Suc (capturedCount (ts[i := UNCAPTURED])) = capturedCount ts"
    using assms by (intro capturedCount_loss) (simp_all add: captured_def)
  moreover have "0 < capturedCount (ts[i := UNCAPTURED])"
    using assms by (intro capturedCount_pos [of j]) simp_all
  ultimately show ?thesis by simp
qed

text \<open>The count after one slot of the array changes, in the ways the source changes it.\<close>

lemma count_gain:
  assumes "unat (c :: u32) = capturedCount ts" "length ts = MAX_THREADS" "i < MAX_THREADS"
    "\<not> captured (ts ! i)" "captured v"
  shows "unat (c + 1) = capturedCount (ts[i := v])"
proof -
  have "capturedCount ts < MAX_THREADS"
    using capturedCount_room [of i ts] assms by simp
  then show ?thesis
    using assms by (simp add: unat_inc capturedCount_gain)
qed

lemma count_loss:
  assumes "unat (c :: u32) = capturedCount ts" "length ts = MAX_THREADS" "i < MAX_THREADS"
    "captured (ts ! i)" "\<not> captured v"
  shows "unat (c - 1) = capturedCount (ts[i := v])"
proof -
  have "Suc (capturedCount (ts[i := v])) = capturedCount ts"
    using capturedCount_loss [of i ts v] assms by simp
  then show ?thesis
    using assms(1) unat_dec [of c] by simp
qed

subsection \<open>Every call keeps the invariant of the executor state\<close>

lemma stateInv_init: "stateInv init"
  by (simp add: stateInv_def wfState_def init_def capturedCount_def captured_def MAX_THREADS_def unat_none)

lemma stateInv_UncaptureAndSwitch:
  assumes "stateInv s" "UncaptureAndSwitch ucb s = Inr s'"
  shows "stateInv s'"
proof -
  let ?n = "ucb (curTid s) (contexts s ! unat (curTid s))"
  let ?ts = "threadStates s"
  from assms(1) have len: "length ?ts = MAX_THREADS" and wfState: "wfState s"
    and cnt: "unat (capturedThreads s) = capturedCount ?ts"
    and run: "\<forall>i<MAX_THREADS. (?ts ! i = RUNNING) = (i = unat (curTid s))"
    by (simp_all add: stateInv_def wfState_def)
  from assms(2) len have cur: "unat (curTid s) < MAX_THREADS" and nxt: "unat ?n < MAX_THREADS"
    and running: "?ts ! unat (curTid s) = RUNNING"
    and idle: "?ts ! unat ?n = IDLE"
    and s': "s' = s\<lparr>hookLog := hookLog s @ [UncaptureCall (curTid s) (contexts s ! unat (curTid s))],
                capturedThreads := capturedThreads s - 1,
                threadStates := ?ts[unat (curTid s) := UNCAPTURED, unat ?n := RUNNING],
                curTid := ucast ?n\<rparr>"
    by (auto simp: UncaptureAndSwitch_def Let_def unat_ucast_tid nth_list_update split: if_splits)
  have ne: "unat ?n \<noteq> unat (curTid s)"
    using running idle by auto
  have "unat (capturedThreads s - 1) = capturedCount (?ts[unat (curTid s) := UNCAPTURED])"
    using cnt len cur running by (intro count_loss) (simp_all add: captured_def)
  moreover have "capturedCount (?ts[unat (curTid s) := UNCAPTURED, unat ?n := RUNNING]) =
      capturedCount (?ts[unat (curTid s) := UNCAPTURED])"
    using len nxt idle ne by (intro capturedCount_keep) (simp_all add: captured_def)
  ultimately have c': "unat (capturedThreads s') = capturedCount (threadStates s')"
    by (simp add: s')
  have r': "\<forall>i<MAX_THREADS. (threadStates s' ! i = RUNNING) = (i = unat (curTid s'))"
    using run len cur nxt ne by (auto simp: s' unat_ucast_tid nth_list_update)
  show ?thesis
    using wfState c' r' by (simp add: stateInv_def wfState_def s')
qed

lemma stateInv_TraceGuard_capture:
  assumes "stateInv s" "TraceGuard_capture tid s = Inr s'"
  shows "stateInv s'"
proof -
  let ?ts = "threadStates s"
  let ?v = "if capturedThreads s = 0 then RUNNING else IDLE"
  from assms(1) have len: "length ?ts = MAX_THREADS" and wfState: "wfState s"
    and cnt: "unat (capturedThreads s) = capturedCount ?ts"
    and run: "\<forall>i<MAX_THREADS. (?ts ! i = RUNNING) = (i = unat (curTid s))"
    by (simp_all add: stateInv_def wfState_def)
  from assms(2) have tid: "unat tid < MAX_THREADS" and unc: "?ts ! unat tid = UNCAPTURED"
    and first: "capturedThreads s = 0 \<longrightarrow> curTid s = - 1"
    and s': "s' = s\<lparr>hookLog := hookLog s @ [CaptureCall tid (capturedThreads s = 0)],
                capturedThreads := capturedThreads s + 1,
                threadStates := ?ts[unat tid := ?v],
                curTid := (if capturedThreads s = 0 then tid else curTid s)\<rparr>"
    by (auto simp: TraceGuard_capture_def Let_def split: if_splits)
  have c': "unat (capturedThreads s') = capturedCount (threadStates s')"
    using count_gain [OF cnt len tid, of ?v] unc by (simp add: s' captured_def)
  have r': "\<forall>i<MAX_THREADS. (threadStates s' ! i = RUNNING) = (i = unat (curTid s'))"
  proof (cases "capturedThreads s = 0")
    case True
    then have "capturedCount ?ts = 0"
      using cnt by simp
    then have "\<forall>i<MAX_THREADS. ?ts ! i \<noteq> RUNNING"
      using capturedCount_none [of ?ts] len by (auto simp: captured_def)
    with True len tid show ?thesis
      by (auto simp: s' nth_list_update)
  next
    case False
    moreover have "unat tid \<noteq> unat (curTid s)"
      using run tid unc by auto
    ultimately show ?thesis
      using run len tid by (auto simp: s' nth_list_update)
  qed
  show ?thesis
    using wfState c' r' by (simp add: stateInv_def wfState_def s')
qed

lemma stateInv_TraceGuard_delayed:
  assumes "stateInv s" "TraceGuard_delayed ucb s = Inr s'"
  shows "stateInv s'"
proof (cases "executorInSyscall s")
  case True
  with assms(2) obtain s1 where "UncaptureAndSwitch ucb s = Inr s1"
    and s': "s' = s1\<lparr>executorTid := - 1, executorInSyscall := False\<rparr>"
    by (auto simp: TraceGuard_delayed_def split: if_splits sum.splits)
  with assms(1) have "stateInv s1"
    using stateInv_UncaptureAndSwitch by blast
  then show ?thesis
    by (simp add: s' stateInv_def wfState_def)
next
  case False
  with assms show ?thesis
    by (simp add: TraceGuard_delayed_def)
qed

lemma stateInv_TraceGuard_becomeExecutor:
  assumes "stateInv s" "TraceGuard_becomeExecutor tid s = Inr (s', c)"
  shows "stateInv s'"
  using assms by (auto simp: TraceGuard_becomeExecutor_def Let_def stateInv_def wfState_def split: if_splits)

lemma stateInv_TraceGuard_wait:
  assumes "stateInv s" "TraceGuard_wait tid s = Inr (s', c)"
  shows "stateInv s'"
  using assms stateInv_TraceGuard_becomeExecutor
  by (auto simp: TraceGuard_wait_def split: if_splits)

lemma stateInv_TraceGuard:
  assumes "stateInv s" "TraceGuard ucb tid ctxt s = Inr (s', c)"
  shows "stateInv s'"
proof -
  from assms(2) have tid: "unat tid < MAX_THREADS"
    by (auto simp: TraceGuard_def split: if_splits)
  let ?s1 = "s\<lparr>contexts := (contexts s)[unat tid := ctxt]\<rparr>"
  have s1: "stateInv ?s1"
    using assms(1) by (simp add: stateInv_def wfState_def)
  show ?thesis
  proof (cases "threadStates s ! unat tid = RUNNING")
    case True
    with assms(2) have "threadStates s' = threadStates s" "capturedThreads s' = capturedThreads s"
      "curTid s' = curTid s" "length (contexts s') = length (contexts s)"
      "waitLocks s' = waitLocks s"
      by (auto simp: TraceGuard_def Let_def split: if_splits)
    with assms(1) show ?thesis
      by (simp add: stateInv_def wfState_def)
  next
    case False
    with assms(2) tid obtain s2 s3 where "TraceGuard_capture tid ?s1 = Inr s2"
      "TraceGuard_delayed ucb s2 = Inr s3" "TraceGuard_wait tid s3 = Inr (s', c)"
      by (auto simp: TraceGuard_def Let_def split: if_splits sum.splits)
    with s1 show ?thesis
      using stateInv_TraceGuard_capture stateInv_TraceGuard_delayed stateInv_TraceGuard_wait
      by blast
  qed
qed

lemma stateInv_TraceGuard_wakeup:
  assumes "stateInv s" "TraceGuard_wakeup tid s = Inr (s', c)"
  shows "stateInv s'"
proof -
  let ?s1 = "s\<lparr>waitLocks := (waitLocks s)[unat tid := True]\<rparr>"
  have s1: "stateInv ?s1"
    using assms(1) by (simp add: stateInv_def wfState_def)
  from assms(2) consider
      "s' = ?s1\<lparr>contexts := (contexts ?s1)[unat tid :=
          (contexts ?s1 ! unat tid)\<lparr>executorReg := 0, switchReg := - 1\<rparr>]\<rparr>"
    | "TraceGuard_becomeExecutor tid ?s1 = Inr (s', c)"
    | "TraceGuard_wait tid ?s1 = Inr (s', c)"
    by (auto simp: TraceGuard_wakeup_def Let_def split: if_splits)
  then show ?thesis
  proof cases
    case 1
    with s1 show ?thesis by (simp add: stateInv_def wfState_def)
  next
    case 2
    with s1 show ?thesis using stateInv_TraceGuard_becomeExecutor by blast
  next
    case 3
    with s1 show ?thesis using stateInv_TraceGuard_wait by blast
  qed
qed

lemma stateInv_SyscallGuard:
  assumes "stateInv s" "SyscallGuard ucb tid ctxt s = Inr (s', c)"
  shows "stateInv s'"
proof -
  let ?s1 = "s\<lparr>contexts := (contexts s)[unat (curTid s) := ctxt]\<rparr>"
  have s1: "stateInv ?s1"
    using assms(1) by (simp add: stateInv_def wfState_def)
  from assms(2) consider
      s2 where "UncaptureAndSwitch ucb ?s1 = Inr s2"
        "s' = s2\<lparr>waitLocks := (waitLocks s2)[unat (curTid s) := False],
              contexts := (contexts s2)[unat (curTid s2) :=
                (contexts s2 ! unat (curTid s2))\<lparr>executorReg := 1, switchReg := ucast (curTid s2)\<rparr>]\<rparr>"
    | s2 where "UncaptureAndSwitch ucb ?s1 = Inr s2"
        "s' = s2\<lparr>executorTid := - 1, waitLocks := (waitLocks s2)[unat (curTid s2) := False],
              contexts := (contexts s2)[unat tid :=
                (contexts s2 ! unat tid)\<lparr>executorReg := 0, switchReg := - 1\<rparr>]\<rparr>"
    | "s' = ?s1\<lparr>executorInSyscall := True,
              contexts := (contexts ?s1)[unat tid :=
                (contexts ?s1 ! unat tid)\<lparr>executorReg := 0, switchReg := - 1\<rparr>]\<rparr>"
    by (auto simp: SyscallGuard_def Let_def split: if_splits sum.splits)
  then show ?thesis
  proof cases
    case 1
    with s1 have "stateInv s2" using stateInv_UncaptureAndSwitch by blast
    with 1 show ?thesis by (simp add: stateInv_def wfState_def)
  next
    case 2
    with s1 have "stateInv s2" using stateInv_UncaptureAndSwitch by blast
    with 2 show ?thesis by (simp add: stateInv_def wfState_def)
  next
    case 3
    with s1 show ?thesis by (simp add: stateInv_def wfState_def)
  qed
qed

lemma stateInv_SwitchHandler:
  assumes "stateInv s" "SwitchHandler tid ctxt s = Inr (s', c)"
  shows "stateInv s'"
proof -
  let ?n = "ucast (switchReg ctxt) :: u32"
  let ?ts = "threadStates s"
  let ?v = "if blockAfterSwitchcall s then BLOCKED else IDLE"
  from assms(1) have len: "length ?ts = MAX_THREADS" and wfState: "wfState s"
    and cnt: "unat (capturedThreads s) = capturedCount ?ts"
    and run: "\<forall>i<MAX_THREADS. (?ts ! i = RUNNING) = (i = unat (curTid s))"
    by (simp_all add: stateInv_def wfState_def)
  from assms(2) have cur: "unat (curTid s) < MAX_THREADS" and nxt: "unat ?n < MAX_THREADS"
    and ne: "?n \<noteq> curTid s"
    and running: "?ts ! unat (curTid s) = RUNNING" and idle: "?ts ! unat ?n = IDLE"
    by (auto simp: SwitchHandler_def Let_def split: if_splits)
  have ne': "unat ?n \<noteq> unat (curTid s)"
    using ne by (simp add: word_unat_eq_iff)
  from assms(2) cur nxt ne running idle
  have ts': "threadStates s' = ?ts[unat (curTid s) := ?v, unat ?n := RUNNING]"
    and cap': "capturedThreads s' =
      (if blockAfterSwitchcall s then capturedThreads s - 1 else capturedThreads s)"
    and cur': "curTid s' = ?n"
    and wf': "wfState s'"
    using wfState by (auto simp: SwitchHandler_def Let_def wfState_def split: if_splits)
  have mid: "unat (capturedThreads s') = capturedCount (?ts[unat (curTid s) := ?v])"
    using count_loss [OF cnt len cur, of BLOCKED] capturedCount_keep [of "unat (curTid s)" ?ts IDLE]
      cnt len cur running
    by (simp add: cap' captured_def)
  have "capturedCount (?ts[unat (curTid s) := ?v, unat ?n := RUNNING]) =
      capturedCount (?ts[unat (curTid s) := ?v])"
    using len nxt idle ne' by (intro capturedCount_keep) (simp_all add: captured_def)
  with mid have c': "unat (capturedThreads s') = capturedCount (threadStates s')"
    by (simp add: ts')
  have r': "\<forall>i<MAX_THREADS. (threadStates s' ! i = RUNNING) = (i = unat (curTid s'))"
    using run len cur nxt ne' by (auto simp: ts' cur' nth_list_update)
  show ?thesis
    using wf' c' r' by (simp add: stateInv_def)
qed

lemma stateInv_blockIdleThread:
  assumes "stateInv s" "blockIdleThread tid s = Inr s'"
  shows "stateInv s'"
proof -
  let ?ts = "threadStates s"
  from assms(1) have len: "length ?ts = MAX_THREADS" and wfState: "wfState s"
    and cnt: "unat (capturedThreads s) = capturedCount ?ts"
    and run: "\<forall>i<MAX_THREADS. (?ts ! i = RUNNING) = (i = unat (curTid s))"
    by (simp_all add: stateInv_def wfState_def)
  from assms(2) have tid: "unat tid < MAX_THREADS" and idle: "?ts ! unat tid = IDLE"
    and s': "s' = s\<lparr>threadStates := ?ts[unat tid := BLOCKED],
                capturedThreads := capturedThreads s - 1\<rparr>"
    by (auto simp: blockIdleThread_def split: if_splits)
  have c': "unat (capturedThreads s') = capturedCount (threadStates s')"
    using count_loss [OF cnt len tid, of BLOCKED] idle by (simp add: s' captured_def)
  have "unat tid \<noteq> unat (curTid s)"
    using run tid idle by auto
  then have r': "\<forall>i<MAX_THREADS. (threadStates s' ! i = RUNNING) = (i = unat (curTid s'))"
    using run len tid by (auto simp: s' nth_list_update)
  show ?thesis
    using wfState c' r' by (simp add: stateInv_def wfState_def s')
qed

lemma stateInv_unblock:
  assumes "stateInv s" "unblock tid s = Inr s'"
  shows "stateInv s'"
proof -
  let ?ts = "threadStates s"
  from assms(1) have len: "length ?ts = MAX_THREADS" and wfState: "wfState s"
    and cnt: "unat (capturedThreads s) = capturedCount ?ts"
    and run: "\<forall>i<MAX_THREADS. (?ts ! i = RUNNING) = (i = unat (curTid s))"
    by (simp_all add: stateInv_def wfState_def)
  from assms(2) have tid: "unat tid < MAX_THREADS" and blocked: "?ts ! unat tid = BLOCKED"
    and s': "s' = s\<lparr>threadStates := ?ts[unat tid := IDLE],
                capturedThreads := capturedThreads s + 1\<rparr>"
    by (auto simp: unblock_def split: if_splits)
  have c': "unat (capturedThreads s') = capturedCount (threadStates s')"
    using count_gain [OF cnt len tid, of IDLE] blocked by (simp add: s' captured_def)
  have "unat tid \<noteq> unat (curTid s)"
    using run tid blocked by auto
  then have r': "\<forall>i<MAX_THREADS. (threadStates s' ! i = RUNNING) = (i = unat (curTid s'))"
    using run len tid by (auto simp: s' nth_list_update)
  show ?thesis
    using wfState c' r' by (simp add: stateInv_def wfState_def s')
qed

lemma stateInv_ThreadStart:
  assumes "stateInv s" "ThreadStart tid ctxt s = Inr (s', c)"
  shows "stateInv s'"
  using assms by (auto simp: ThreadStart_def Let_def stateInv_def wfState_def split: if_splits)

lemma stateInv_ThreadFini:
  assumes "stateInv s" "ThreadFini tid s = Inr s'"
  shows "stateInv s'"
  using assms by (auto simp: ThreadFini_def stateInv_def wfState_def split: if_splits)

lemma stateInv_blockAfterSwitch:
  assumes "stateInv s" "blockAfterSwitch s = Inr s'"
  shows "stateInv s'"
  using assms by (auto simp: blockAfterSwitch_def stateInv_def wfState_def split: if_splits)

lemma stateInv_perform:
  assumes "stateInv s" "perform c s = Inr (s', out)"
  shows "stateInv s'"
proof (cases c)
  case (DoThreadStart tid ctxt)
  with assms show ?thesis
    using stateInv_ThreadStart by (auto split: sum.splits)
next
  case (DoThreadFini tid)
  with assms show ?thesis
    using stateInv_ThreadFini by (auto split: sum.splits)
next
  case (DoTraceGuard ucb tid ctxt)
  with assms show ?thesis
    using stateInv_TraceGuard by (auto simp: guardResult_def split: sum.splits)
next
  case (DoTraceGuardWakeup tid)
  with assms show ?thesis
    using stateInv_TraceGuard_wakeup by (auto simp: guardResult_def split: sum.splits)
next
  case (DoSyscallGuard ucb tid ctxt)
  with assms show ?thesis
    using stateInv_SyscallGuard by (auto simp: guardResult_def split: sum.splits)
next
  case (DoSwitchHandler tid ctxt)
  with assms show ?thesis
    using stateInv_SwitchHandler by (auto simp: guardResult_def split: sum.splits)
next
  case (DoUncaptureAndSwitch ucb)
  with assms show ?thesis
    using stateInv_UncaptureAndSwitch by (auto simp: apiResult_def split: sum.splits)
next
  case DoBlockAfterSwitch
  with assms show ?thesis
    using stateInv_blockAfterSwitch by (auto simp: apiResult_def split: sum.splits)
next
  case (DoBlockIdleThread tid)
  with assms show ?thesis
    using stateInv_blockIdleThread by (auto simp: apiResult_def split: sum.splits)
next
  case (DoUnblock tid)
  with assms show ?thesis
    using stateInv_unblock by (auto simp: apiResult_def split: sum.splits)
qed

lemma stateInv_performAll:
  "stateInv s \<Longrightarrow> performAll cs s = Inr s' \<Longrightarrow> stateInv s'"
proof (induction cs arbitrary: s)
  case Nil
  then show ?case by simp
next
  case (Cons c cs)
  from Cons.prems(2) obtain s1 out where step: "perform c s = Inr (s1, out)"
    and rest: "performAll cs s1 = Inr s'"
    by (auto split: sum.splits)
  from Cons.prems(1) step have "stateInv s1"
    by (rule stateInv_perform)
  with rest show ?case
    by (rule Cons.IH [rotated])
qed

text \<open>
  C1. After any sequence of calls from \<open>init\<close> (thread start and finish, capture, wake-up,
  syscall guard, switch, uncapture-and-switch, block, unblock, whatever their arguments and
  whatever the hooks answer), none of them fatal, \<open>capturedThreads\<close> is the number of
  threads whose state is \<open>IDLE\<close> or \<open>RUNNING\<close>.
\<close>

theorem capturedThreads_counts_idle_and_running:
  assumes "performAll cs init = Inr s"
  shows "unat (capturedThreads s) = length (filter (\<lambda>t. t = IDLE \<or> t = RUNNING) (threadStates s))"
proof -
  have "stateInv s"
    using stateInv_init assms by (rule stateInv_performAll)
  then show ?thesis
    by (simp add: stateInv_def capturedCount_def captured_def [abs_def])
qed

theorem capturedThreads_counts_idle_and_running_witness:
  "\<exists>s. performAll demoCalls init = Inr s \<and> capturedThreads s = 1 \<and>
     threadStates s ! 0 = UNCAPTURED \<and> threadStates s ! 1 = RUNNING \<and>
     unat (capturedThreads s) = length (filter (\<lambda>t. t = IDLE \<or> t = RUNNING) (threadStates s))"
proof -
  obtain s where run: "performAll demoCalls init = Inr s" and "capturedThreads s = 1"
    "threadStates s ! 0 = UNCAPTURED" "threadStates s ! 1 = RUNNING"
    by (simp add: demoCalls_def run_simps)
  with capturedThreads_counts_idle_and_running [OF run] show ?thesis
    by simp
qed

section \<open>The executor in a syscall\<close>

subsection \<open>What a successful call leaves\<close>

lemma UncaptureAndSwitch_effect:
  assumes "UncaptureAndSwitch ucb s = Inr s'" "length (threadStates s) = MAX_THREADS"
  shows "\<exists>n<MAX_THREADS. unat (curTid s) < MAX_THREADS \<and> n \<noteq> unat (curTid s) \<and>
           threadStates s ! unat (curTid s) = RUNNING \<and> threadStates s ! n = IDLE \<and>
           threadStates s' = (threadStates s)[unat (curTid s) := UNCAPTURED, n := RUNNING] \<and>
           unat (curTid s') = n \<and> capturedThreads s' = capturedThreads s - 1 \<and>
           executorTid s' = executorTid s \<and> executorInSyscall s' = executorInSyscall s \<and>
           contexts s' = contexts s \<and> waitLocks s' = waitLocks s"
proof -
  let ?n = "ucb (curTid s) (contexts s ! unat (curTid s))"
  from assms have "unat (curTid s) < MAX_THREADS" "unat ?n < MAX_THREADS"
    "threadStates s ! unat (curTid s) = RUNNING" "threadStates s ! unat ?n = IDLE"
    "s' = s\<lparr>hookLog := hookLog s @ [UncaptureCall (curTid s) (contexts s ! unat (curTid s))],
            capturedThreads := capturedThreads s - 1,
            threadStates := (threadStates s)[unat (curTid s) := UNCAPTURED, unat ?n := RUNNING],
            curTid := ucast ?n\<rparr>"
    by (auto simp: UncaptureAndSwitch_def Let_def unat_ucast_tid nth_list_update split: if_splits)
  then show ?thesis
    by (intro exI [of _ "unat ?n"]) (auto simp: unat_ucast_tid)
qed

lemma TraceGuard_effect:
  assumes "TraceGuard ucb tid ctxt s = Inr (s', c)" "wfState s"
  shows "\<not> executorInSyscall s'"
    and "unat tid < MAX_THREADS"
    and "c = Park \<Longrightarrow> executorTid s' = executorTid s \<and> executorTid s \<noteq> - 1"
    and "c = ExecuteAt c' \<Longrightarrow> executorReg c' = 1 \<and> executorTid s' = tid \<and>
           (executorTid s = tid \<or> executorTid s = - 1 \<or> executorInSyscall s)"
    and "i < MAX_THREADS \<Longrightarrow> i \<noteq> unat tid \<Longrightarrow> threadStates s ! i = UNCAPTURED \<Longrightarrow>
           threadStates s' ! i = UNCAPTURED"
    and "executorInSyscall s \<Longrightarrow> threadStates s ! unat tid \<noteq> RUNNING \<Longrightarrow>
           unat (executorTid s) < MAX_THREADS \<and> threadStates s' ! unat (executorTid s) = UNCAPTURED"
    and "executorInSyscall s \<Longrightarrow> threadStates s ! unat tid = RUNNING \<Longrightarrow> executorTid s = tid"
  using assms
  by (auto simp: TraceGuard_def TraceGuard_capture_def TraceGuard_delayed_def TraceGuard_wait_def
      TraceGuard_becomeExecutor_def UncaptureAndSwitch_def Let_def wfState_def unat_ucast_tid
      nth_list_update split: if_splits sum.splits)

lemma TraceGuard_wakeup_effect:
  assumes "TraceGuard_wakeup tid s = Inr (s', c)" "wfState s"
  shows "threadStates s' = threadStates s \<and> capturedThreads s' = capturedThreads s \<and>
         curTid s' = curTid s \<and> executorInSyscall s' = executorInSyscall s"
    and "unat tid < MAX_THREADS"
    and "c = Park \<Longrightarrow> executorTid s' = executorTid s"
    and "c = ExecuteAt c' \<Longrightarrow>
           (threadStates s ! unat tid = UNCAPTURED \<and> executorReg c' = 0 \<and>
            executorTid s' = executorTid s) \<or>
           (executorTid s = - 1 \<and> executorReg c' = 1 \<and> executorTid s' = tid)"
  using assms
  by (auto simp: TraceGuard_wakeup_def TraceGuard_wait_def TraceGuard_becomeExecutor_def Let_def
      wfState_def split: if_splits)

lemma SyscallGuard_effect:
  assumes "SyscallGuard ucb tid ctxt s = Inr (s', c)" "wfState s"
  shows "executorTid s = tid \<and> unat (curTid s) < MAX_THREADS \<and> (\<exists>c'. c = ExecuteAt c' \<and>
     ((curTid s \<noteq> tid \<and> executorReg c' = 1 \<and> executorTid s' = tid \<and>
         executorInSyscall s' = executorInSyscall s \<and> switched s s') \<or>
      (curTid s = tid \<and> 2 \<le> capturedThreads s \<and> executorReg c' = 0 \<and> executorTid s' = - 1 \<and>
         executorInSyscall s' = executorInSyscall s \<and> switched s s') \<or>
      (curTid s = tid \<and> \<not> 2 \<le> capturedThreads s \<and> \<not> executorInSyscall s \<and>
         executorInSyscall s' \<and> executorReg c' = 0 \<and> executorTid s' = tid \<and>
         threadStates s' = threadStates s \<and> curTid s' = curTid s \<and>
         capturedThreads s' = capturedThreads s)))"
proof -
  let ?s1 = "s\<lparr>contexts := (contexts s)[unat (curTid s) := ctxt]\<rparr>"
  from assms(1) have pre: "executorTid s = tid" "unat (curTid s) < MAX_THREADS"
    by (auto simp: SyscallGuard_def split: if_splits)
  have uas: "switched s s'" "executorTid s2 = executorTid s"
      "executorInSyscall s2 = executorInSyscall s"
    if "UncaptureAndSwitch ucb ?s1 = Inr s2" "threadStates s' = threadStates s2"
      "curTid s' = curTid s2" "capturedThreads s' = capturedThreads s2" for s2
    using UncaptureAndSwitch_effect [OF that(1)] assms(2) that(2-)
    by (auto simp: switched_def wfState_def)
  from assms consider
      (ship) s2 c' where "curTid s \<noteq> tid" "UncaptureAndSwitch ucb ?s1 = Inr s2"
        "threadStates s' = threadStates s2" "curTid s' = curTid s2"
        "capturedThreads s' = capturedThreads s2" "executorTid s' = executorTid s2"
        "executorInSyscall s' = executorInSyscall s2" "c = ExecuteAt c'" "executorReg c' = 1"
    | (handoff) s2 c' where "curTid s = tid" "2 \<le> capturedThreads s"
        "UncaptureAndSwitch ucb ?s1 = Inr s2"
        "threadStates s' = threadStates s2" "curTid s' = curTid s2"
        "capturedThreads s' = capturedThreads s2" "executorTid s' = - 1"
        "executorInSyscall s' = executorInSyscall s2" "c = ExecuteAt c'" "executorReg c' = 0"
    | (delay) c' where "curTid s = tid" "\<not> 2 \<le> capturedThreads s" "\<not> executorInSyscall s"
        "executorInSyscall s'" "executorTid s' = tid" "threadStates s' = threadStates s"
        "curTid s' = curTid s" "capturedThreads s' = capturedThreads s"
        "c = ExecuteAt c'" "executorReg c' = 0"
    by (auto simp: SyscallGuard_def Let_def wfState_def split: if_splits sum.splits)
  then show ?thesis
  proof cases
    case ship
    with uas [OF ship(2-5)] pre show ?thesis
      by simp
  next
    case handoff
    with uas [OF handoff(3-6)] pre show ?thesis
      by simp
  next
    case delay
    with pre show ?thesis
      by simp
  qed
qed

lemma SwitchHandler_effect:
  assumes "SwitchHandler tid ctxt s = Inr (s', c)" "wfState s"
  shows "\<exists>n<MAX_THREADS. \<exists>c'. executorReg ctxt = 1 \<and> executorTid s = tid \<and>
           unat (curTid s) < MAX_THREADS \<and> n \<noteq> unat (curTid s) \<and>
           threadStates s ! unat (curTid s) = RUNNING \<and> threadStates s ! n = IDLE \<and>
           threadStates s' = (threadStates s)[unat (curTid s) :=
              (if blockAfterSwitchcall s then BLOCKED else IDLE), n := RUNNING] \<and>
           executorTid s' = tid \<and> executorInSyscall s' = executorInSyscall s \<and>
           c = ExecuteAt c' \<and> executorReg c' = 1"
proof -
  let ?n = "ucast (switchReg ctxt) :: u32"
  from assms(1) have ne: "?n \<noteq> curTid s"
    by (auto simp: SwitchHandler_def Let_def split: if_splits)
  then have "unat ?n \<noteq> unat (curTid s)"
    by (simp add: word_unat_eq_iff)
  with assms show ?thesis
    by (intro exI [of _ "unat ?n"])
      (auto simp: SwitchHandler_def Let_def wfState_def split: if_splits)
qed

lemma switched_keeps_uncaptured:
  assumes "switched s s'" "length (threadStates s) = MAX_THREADS" "t < MAX_THREADS"
    "threadStates s ! t = UNCAPTURED"
  shows "threadStates s' ! t = UNCAPTURED"
  using assms by (auto simp: switched_def nth_list_update)

lemma switched_uncaptures_current:
  assumes "switched s s'" "length (threadStates s) = MAX_THREADS"
  shows "threadStates s' ! unat (curTid s) = UNCAPTURED"
  using assms by (auto simp: switched_def nth_list_update)

lemma update_other_state:
  "ts ! t = a \<Longrightarrow> ts ! i = b \<Longrightarrow> a \<noteq> b \<Longrightarrow> ts[i := v] ! t = a"
  by (cases "t = i") auto

lemma stateInv_running_counts:
  assumes "stateInv s" "unat (curTid s) < MAX_THREADS"
  shows "threadStates s ! unat (curTid s) = RUNNING" "0 < unat (capturedThreads s)"
proof -
  show r: "threadStates s ! unat (curTid s) = RUNNING"
    using assms by (simp add: stateInv_def)
  have "0 < capturedCount (threadStates s)"
    using assms r by (intro capturedCount_pos [of "unat (curTid s)"]) (simp_all add: stateInv_def wfState_def captured_def)
  then show "0 < unat (capturedThreads s)"
    using assms(1) by (simp add: stateInv_def)
qed

lemma stateInv_two_captured:
  assumes "stateInv s" "i < MAX_THREADS" "j < MAX_THREADS" "i \<noteq> j"
    "captured (threadStates s ! i)" "captured (threadStates s ! j)"
  shows "2 \<le> unat (capturedThreads s)" "capturedThreads s \<noteq> 1"
proof -
  have "2 \<le> capturedCount (threadStates s)"
    using assms by (intro capturedCount_two [of i _ j]) (simp_all add: stateInv_def wfState_def)
  then show "2 \<le> unat (capturedThreads s)"
    using assms(1) by (simp add: stateInv_def)
  then show "capturedThreads s \<noteq> 1"
    by auto
qed

subsection \<open>The executor-in-syscall invariant, call by call\<close>

lemma syscallInv_TraceGuard:
  assumes "TraceGuard ucb tid ctxt s = Inr (s', c)" "wfState s"
  shows "syscallInv s'"
  using TraceGuard_effect(1) [OF assms] by (simp add: syscallInv_def)

lemma syscallInv_TraceGuard_wakeup:
  assumes "syscallInv s" "TraceGuard_wakeup tid s = Inr (s', c)" "wfState s"
  shows "syscallInv s'"
proof (cases c)
  case (ExecuteAt c')
  from TraceGuard_wakeup_effect(1) [OF assms(2,3)]
    TraceGuard_wakeup_effect(4) [OF assms(2,3) ExecuteAt] assms(1)
  show ?thesis
    by (auto simp: syscallInv_def dest: none_not_tid)
next
  case Park
  from TraceGuard_wakeup_effect(1) [OF assms(2,3)]
    TraceGuard_wakeup_effect(3) [OF assms(2,3) Park] assms(1)
  show ?thesis
    by (auto simp: syscallInv_def)
qed

lemma syscallInv_SyscallGuard:
  assumes "stateInv s" "syscallInv s" "SyscallGuard ucb tid ctxt s = Inr (s', c)"
  shows "syscallInv s'"
proof -
  have wfState: "wfState s"
    using assms(1) by (simp add: stateInv_def)
  from SyscallGuard_effect [OF assms(3) wfState] have cur: "unat (curTid s) < MAX_THREADS"
    and ex: "executorTid s = tid"
    by simp_all
  from SyscallGuard_effect [OF assms(3) wfState] consider
      (ship) "curTid s \<noteq> tid" "executorInSyscall s' = executorInSyscall s"
    | (handoff) "2 \<le> capturedThreads s" "executorInSyscall s' = executorInSyscall s"
    | (delay) "curTid s = tid" "\<not> 2 \<le> capturedThreads s" "executorTid s' = tid"
        "curTid s' = curTid s" "capturedThreads s' = capturedThreads s"
    by blast
  then show ?thesis
  proof cases
    case ship
    with assms(2) ex show ?thesis
      by (auto simp: syscallInv_def)
  next
    case handoff
    with assms(2) not_two_le_one show ?thesis
      by (auto simp: syscallInv_def)
  next
    case delay
    have "capturedThreads s = 1"
      using delay(2) stateInv_running_counts(2) [OF assms(1) cur] by (rule word_one_of_bounds)
    with delay cur show ?thesis
      by (simp add: syscallInv_def)
  qed
qed

lemma syscallInv_SwitchHandler:
  assumes "stateInv s" "syscallInv s" "SwitchHandler tid ctxt s = Inr (s', c)"
  shows "syscallInv s'"
proof -
  have wfState: "wfState s"
    using assms(1) by (simp add: stateInv_def)
  from SwitchHandler_effect [OF assms(3) wfState] obtain n where n: "n < MAX_THREADS"
    "unat (curTid s) < MAX_THREADS" "n \<noteq> unat (curTid s)"
    "threadStates s ! unat (curTid s) = RUNNING" "threadStates s ! n = IDLE"
    "executorInSyscall s' = executorInSyscall s"
    by auto
  have "capturedThreads s \<noteq> 1"
    using n by (intro stateInv_two_captured(2) [OF assms(1), of n "unat (curTid s)"])
      (simp_all add: captured_def)
  with assms(2) n(6) show ?thesis
    by (simp add: syscallInv_def)
qed

lemma syscallInv_blockIdleThread:
  assumes "syscallInv s" "blockIdleThread tid s = Inr s'"
  shows "syscallInv s'"
  using assms by (auto simp: blockIdleThread_def syscallInv_def split: if_splits)

lemma syscallInv_unblock:
  assumes "\<not> executorInSyscall s" "unblock tid s = Inr s'"
  shows "syscallInv s'"
  using assms by (auto simp: unblock_def syscallInv_def split: if_splits)

subsection \<open>The invariant of the whole system, call by call\<close>

lemma sysInv_init: "sysInv initSystem"
proof -
  have "stateInv (exec initSystem)"
    by (simp add: initSystem_def stateInv_init)
  moreover have "syscallInv (exec initSystem)"
    by (simp add: initSystem_def syscallInv_def init_def)
  moreover have "threadInv initSystem"
    by (simp add: initSystem_def threadInv_def)
  ultimately show ?thesis
    by (simp add: sysInv_def)
qed

lemma sysStep_guard:
  assumes "sysStep c sys = Some sys'" "perform c = (\<lambda>s. guardResult tid (g s))"
  obtains s' ctl where "dispatched c sys" "g (exec sys) = Inr (s', ctl)"
    "sys' = \<lparr>exec = s', osThreads = (osThreads sys)[unat tid := after ctl]\<rparr>"
  using assms by (auto simp: sysStep_def guardResult_def split: if_splits sum.splits)

lemma sysStep_api:
  assumes "sysStep c sys = Some sys'" "perform c = (\<lambda>s. apiResult (g s))"
  obtains s' where "dispatched c sys" "g (exec sys) = Inr s'" "sys' = sys\<lparr>exec := s'\<rparr>"
  using assms by (auto simp: sysStep_def apiResult_def split: if_splits sum.splits)

lemma sysInv_TraceGuard:
  assumes "sysInv sys" "sysStep (DoTraceGuard ucb tid ctxt) sys = Some sys'"
  shows "sysInv sys'"
proof -
  let ?s = "exec sys"
  from assms(2) obtain s' ctl where disp: "dispatched (DoTraceGuard ucb tid ctxt) sys"
    and tg: "TraceGuard ucb tid ctxt ?s = Inr (s', ctl)"
    and sys': "sys' = \<lparr>exec = s', osThreads = (osThreads sys)[unat tid := after ctl]\<rparr>"
    by (rule sysStep_guard [where g = "TraceGuard ucb tid ctxt"]) auto
  from assms(1) have inv: "stateInv ?s" and wfState: "wfState ?s" and th: "threadInv sys"
    by (simp_all add: sysInv_def stateInv_def)
  note eff = TraceGuard_effect [OF tg wfState]
  have tid: "unat tid < MAX_THREADS"
    by (rule eff(2))
  have len: "length (osThreads sys) = MAX_THREADS"
    using th by (simp add: threadInv_def)
  have noflag: "\<not> executorInSyscall s'"
    by (rule eff(1))
  have exec: "t = unat (executorTid s')"
    if "t < MAX_THREADS" "(osThreads sys)[unat tid := after ctl] ! t = Live e" "e \<noteq> 0" for t e
  proof (cases "t = unat tid")
    case True
    with that len tid obtain c' where "ctl = ExecuteAt c'"
      by (cases ctl) auto
    with eff(4) [OF this] True show ?thesis
      by simp
  next
    case False
    with that have old: "osThreads sys ! t = Live e"
      by simp
    with th that have t: "t = unat (executorTid ?s)" and nf: "\<not> executorInSyscall ?s"
      by (auto simp: threadInv_def)
    show ?thesis
    proof (cases ctl)
      case (ExecuteAt c')
      from eff(4) [OF this] nf t False that(1) show ?thesis
        by (auto simp: unat_none MAX_THREADS_def)
    next
      case Park
      from eff(3) [OF this] t show ?thesis
        by simp
    qed
  qed
  have unc: "threadStates s' ! t = UNCAPTURED"
    if "t < MAX_THREADS" "(osThreads sys)[unat tid := after ctl] ! t = Live 0" for t
  proof (cases "t = unat tid")
    case True
    with that len tid have "after ctl = Live 0"
      by simp
    then show ?thesis
      using eff(4) by (cases ctl) auto
  next
    case False
    with that have old: "osThreads sys ! t = Live 0"
      by simp
    with th that consider "threadStates ?s ! t = UNCAPTURED"
      | "executorInSyscall ?s" "t = unat (executorTid ?s)"
      by (auto simp: threadInv_def)
    then show ?thesis
    proof cases
      case 1
      with eff(5) that(1) False show ?thesis
        by simp
    next
      case 2
      with eff(6) eff(7) False show ?thesis
        by (cases "threadStates ?s ! unat tid = RUNNING") auto
    qed
  qed
  have "threadInv sys'"
    using len noflag exec unc by (auto simp: threadInv_def sys')
  moreover have "stateInv s'"
    using inv tg by (rule stateInv_TraceGuard)
  moreover have "syscallInv s'"
    using tg wfState by (rule syscallInv_TraceGuard)
  ultimately show ?thesis
    by (simp add: sysInv_def sys')
qed

lemma sysInv_TraceGuard_wakeup:
  assumes "sysInv sys" "sysStep (DoTraceGuardWakeup tid) sys = Some sys'"
  shows "sysInv sys'"
proof -
  let ?s = "exec sys"
  from assms(2) obtain s' ctl where disp: "dispatched (DoTraceGuardWakeup tid) sys"
    and tg: "TraceGuard_wakeup tid ?s = Inr (s', ctl)"
    and sys': "sys' = \<lparr>exec = s', osThreads = (osThreads sys)[unat tid := after ctl]\<rparr>"
    by (rule sysStep_guard [where g = "TraceGuard_wakeup tid"]) auto
  from assms(1) have inv: "stateInv ?s" and wfState: "wfState ?s" and th: "threadInv sys"
    and sc: "syscallInv ?s"
    by (simp_all add: sysInv_def stateInv_def)
  note eff = TraceGuard_wakeup_effect [OF tg wfState]
  have tid: "unat tid < MAX_THREADS"
    by (rule eff(2))
  have len: "length (osThreads sys) = MAX_THREADS"
    using th by (simp add: threadInv_def)
  have sc': "syscallInv s'"
    using sc tg wfState by (rule syscallInv_TraceGuard_wakeup)
  have claim: "\<not> executorInSyscall ?s" if "executorTid ?s = - 1"
    using sc that by (auto simp: syscallInv_def dest: none_not_tid)
  have exec: "t = unat (executorTid s') \<and> \<not> executorInSyscall s'"
    if "t < MAX_THREADS" "(osThreads sys)[unat tid := after ctl] ! t = Live e" "e \<noteq> 0" for t e
  proof (cases "t = unat tid")
    case True
    with that len tid obtain c' where c': "ctl = ExecuteAt c'" "executorReg c' = e"
      by (cases ctl) auto
    with eff(4) [OF c'(1)] eff(1) claim that(3) True show ?thesis
      by auto
  next
    case False
    with that have old: "osThreads sys ! t = Live e"
      by simp
    with th that have t: "t = unat (executorTid ?s)" and nf: "\<not> executorInSyscall ?s"
      by (auto simp: threadInv_def)
    show ?thesis
    proof (cases ctl)
      case (ExecuteAt c')
      from eff(4) [OF this] eff(1) nf t that(1) show ?thesis
        by (auto simp: unat_none MAX_THREADS_def)
    next
      case Park
      from eff(3) [OF this] eff(1) nf t show ?thesis
        by simp
    qed
  qed
  have unc: "threadStates s' ! t = UNCAPTURED \<or> (executorInSyscall s' \<and> t = unat (executorTid s'))"
    if "t < MAX_THREADS" "(osThreads sys)[unat tid := after ctl] ! t = Live 0" for t
  proof (cases "t = unat tid")
    case True
    with that len tid obtain c' where c': "ctl = ExecuteAt c'" "executorReg c' = 0"
      by (cases ctl) auto
    with eff(4) [OF c'(1)] eff(1) True show ?thesis
      by auto
  next
    case False
    with that have old: "osThreads sys ! t = Live 0"
      by simp
    with th that consider "threadStates ?s ! t = UNCAPTURED"
      | "executorInSyscall ?s" "t = unat (executorTid ?s)"
      by (auto simp: threadInv_def)
    then show ?thesis
    proof cases
      case 1
      with eff(1) show ?thesis
        by simp
    next
      case 2
      have "executorTid s' = executorTid ?s"
      proof (cases ctl)
        case (ExecuteAt c')
        from eff(4) [OF this] claim 2(1) show ?thesis
          by auto
      next
        case Park
        from eff(3) [OF this] show ?thesis .
      qed
      with 2 eff(1) show ?thesis
        by simp
    qed
  qed
  have "threadInv sys'"
    using len exec unc by (auto simp: threadInv_def sys')
  moreover have "stateInv s'"
    using inv tg by (rule stateInv_TraceGuard_wakeup)
  ultimately show ?thesis
    using sc' by (simp add: sysInv_def sys')
qed

lemma sysInv_SyscallGuard:
  assumes "sysInv sys" "sysStep (DoSyscallGuard ucb tid ctxt) sys = Some sys'"
  shows "sysInv sys'"
proof -
  let ?s = "exec sys"
  from assms(2) obtain s' ctl where disp: "dispatched (DoSyscallGuard ucb tid ctxt) sys"
    and sg: "SyscallGuard ucb tid ctxt ?s = Inr (s', ctl)"
    and sys': "sys' = \<lparr>exec = s', osThreads = (osThreads sys)[unat tid := after ctl]\<rparr>"
    by (rule sysStep_guard [where g = "SyscallGuard ucb tid ctxt"]) auto
  from assms(1) have inv: "stateInv ?s" and wfState: "wfState ?s" and th: "threadInv sys"
    and sc: "syscallInv ?s" and lts: "length (threadStates ?s) = MAX_THREADS"
    by (simp_all add: sysInv_def stateInv_def wfState_def)
  have len: "length (osThreads sys) = MAX_THREADS"
    using th by (simp add: threadInv_def)
  from disp have tid: "unat tid < MAX_THREADS" and live: "osThreads sys ! unat tid = Live (executorReg ctxt)"
    and isex: "executorReg ctxt \<noteq> 0"
    by (simp_all add: RunSyscallGuard_def)
  from th tid live isex have me: "unat tid = unat (executorTid ?s)" and nf: "\<not> executorInSyscall ?s"
    by (auto simp: threadInv_def)
  have others: "osThreads sys ! t = Live e \<Longrightarrow> e = 0" if "t < MAX_THREADS" "t \<noteq> unat tid" for t e
    using th that me by (auto simp: threadInv_def)
  have idle: "threadStates ?s ! t = UNCAPTURED" if "t < MAX_THREADS" "osThreads sys ! t = Live 0" for t
    using th that nf by (auto simp: threadInv_def)
  have sc': "syscallInv s'"
    using inv sc sg by (rule syscallInv_SyscallGuard)
  have st': "stateInv s'"
    using inv sg by (rule stateInv_SyscallGuard)
  from SyscallGuard_effect [OF sg wfState] obtain c' where ctl: "ctl = ExecuteAt c'"
    and cases: "(curTid ?s \<noteq> tid \<and> executorReg c' = 1 \<and> executorTid s' = tid \<and>
         executorInSyscall s' = executorInSyscall ?s \<and> switched ?s s') \<or>
      (curTid ?s = tid \<and> 2 \<le> capturedThreads ?s \<and> executorReg c' = 0 \<and> executorTid s' = - 1 \<and>
         executorInSyscall s' = executorInSyscall ?s \<and> switched ?s s') \<or>
      (curTid ?s = tid \<and> \<not> 2 \<le> capturedThreads ?s \<and> \<not> executorInSyscall ?s \<and>
         executorInSyscall s' \<and> executorReg c' = 0 \<and> executorTid s' = tid \<and>
         threadStates s' = threadStates ?s \<and> curTid s' = curTid ?s \<and>
         capturedThreads s' = capturedThreads ?s)"
    by blast
  from cases consider
      (ship) "executorReg c' = 1" "executorTid s' = tid" "\<not> executorInSyscall s'" "switched ?s s'"
    | (handoff) "curTid ?s = tid" "executorReg c' = 0" "\<not> executorInSyscall s'" "switched ?s s'"
    | (delay) "executorReg c' = 0" "executorTid s' = tid" "executorInSyscall s'"
        "threadStates s' = threadStates ?s"
    using nf by auto
  then have "threadInv sys'"
  proof cases
    case ship
    have "threadStates s' ! t = UNCAPTURED"
      if "t < MAX_THREADS" "(osThreads sys)[unat tid := Live 1] ! t = Live 0" for t
      using that len tid idle [of t] switched_keeps_uncaptured [OF ship(4) lts, of t]
      by (cases "t = unat tid") auto
    moreover have "t = unat tid"
      if "t < MAX_THREADS" "(osThreads sys)[unat tid := Live 1] ! t = Live e" "e \<noteq> 0" for t e
      using that others [of t e] by (cases "t = unat tid") auto
    ultimately show ?thesis
      using len ship by (auto simp: threadInv_def sys' ctl)
  next
    case handoff
    have "threadStates s' ! t = UNCAPTURED"
      if "t < MAX_THREADS" "(osThreads sys)[unat tid := Live 0] ! t = Live 0" for t
      using that len tid idle [of t] switched_keeps_uncaptured [OF handoff(4) lts, of t]
        switched_uncaptures_current [OF handoff(4) lts] handoff(1)
      by (cases "t = unat tid") auto
    moreover have "False"
      if "t < MAX_THREADS" "(osThreads sys)[unat tid := Live 0] ! t = Live e" "e \<noteq> 0" for t e
      using that len tid others [of t e] by (cases "t = unat tid") auto
    ultimately show ?thesis
      using len handoff by (auto simp: threadInv_def sys' ctl)
  next
    case delay
    have "threadStates s' ! t = UNCAPTURED \<or> t = unat tid"
      if "t < MAX_THREADS" "(osThreads sys)[unat tid := Live 0] ! t = Live 0" for t
      using that len tid idle [of t] delay(4)
      by (cases "t = unat tid") auto
    moreover have "False"
      if "t < MAX_THREADS" "(osThreads sys)[unat tid := Live 0] ! t = Live e" "e \<noteq> 0" for t e
      using that len tid others [of t e] by (cases "t = unat tid") auto
    ultimately show ?thesis
      using len delay by (auto simp: threadInv_def sys' ctl)
  qed
  with st' sc' show ?thesis
    by (simp add: sysInv_def sys')
qed

lemma sysInv_SwitchHandler:
  assumes "sysInv sys" "sysStep (DoSwitchHandler tid ctxt) sys = Some sys'"
  shows "sysInv sys'"
proof -
  let ?s = "exec sys"
  from assms(2) obtain s' ctl where disp: "dispatched (DoSwitchHandler tid ctxt) sys"
    and sh: "SwitchHandler tid ctxt ?s = Inr (s', ctl)"
    and sys': "sys' = \<lparr>exec = s', osThreads = (osThreads sys)[unat tid := after ctl]\<rparr>"
    by (rule sysStep_guard [where g = "SwitchHandler tid ctxt"]) auto
  from assms(1) have inv: "stateInv ?s" and wfState: "wfState ?s" and th: "threadInv sys"
    and sc: "syscallInv ?s" and lts: "length (threadStates ?s) = MAX_THREADS"
    by (simp_all add: sysInv_def stateInv_def wfState_def)
  have len: "length (osThreads sys) = MAX_THREADS"
    using th by (simp add: threadInv_def)
  from SwitchHandler_effect [OF sh wfState] obtain n c' where n: "n < MAX_THREADS"
    and isex: "executorReg ctxt = 1" and cur: "unat (curTid ?s) < MAX_THREADS"
    and ne: "n \<noteq> unat (curTid ?s)"
    and running: "threadStates ?s ! unat (curTid ?s) = RUNNING" and idle: "threadStates ?s ! n = IDLE"
    and ts': "threadStates s' = (threadStates ?s)[unat (curTid ?s) :=
              (if blockAfterSwitchcall ?s then BLOCKED else IDLE), n := RUNNING]"
    and ex': "executorTid s' = tid" "executorTid ?s = tid"
    and flag': "executorInSyscall s' = executorInSyscall ?s"
    and ctl: "ctl = ExecuteAt c'" "executorReg c' = 1"
    by blast
  from disp have tid: "unat tid < MAX_THREADS" and live: "osThreads sys ! unat tid = Live (executorReg ctxt)"
    by simp_all
  from th tid live isex have nf: "\<not> executorInSyscall ?s"
    by (auto simp: threadInv_def)
  have others: "osThreads sys ! t = Live e \<Longrightarrow> e = 0" if "t < MAX_THREADS" "t \<noteq> unat tid" for t e
    using th that ex'(2) by (auto simp: threadInv_def)
  have unc: "threadStates ?s ! t = UNCAPTURED" if "t < MAX_THREADS" "osThreads sys ! t = Live 0" for t
    using th that nf by (auto simp: threadInv_def)
  have "threadStates s' ! t = UNCAPTURED"
    if "t < MAX_THREADS" "(osThreads sys)[unat tid := Live 1] ! t = Live 0" for t
  proof -
    from that len tid have "t \<noteq> unat tid" "osThreads sys ! t = Live 0"
      by (auto simp: nth_list_update split: if_splits)
    with unc [of t] that(1) have u: "threadStates ?s ! t = UNCAPTURED"
      by simp
    with running idle have "unat (curTid ?s) \<noteq> t" "n \<noteq> t"
      by auto
    with u show ?thesis
      by (simp add: ts')
  qed
  moreover have "t = unat tid"
    if "t < MAX_THREADS" "(osThreads sys)[unat tid := Live 1] ! t = Live e" "e \<noteq> 0" for t e
    using that others [of t e] by (cases "t = unat tid") auto
  ultimately have "threadInv sys'"
    using len nf flag' ex' by (auto simp: threadInv_def sys' ctl)
  moreover have "stateInv s'"
    using inv sh by (rule stateInv_SwitchHandler)
  moreover have "syscallInv s'"
    using inv sc sh by (rule syscallInv_SwitchHandler)
  ultimately show ?thesis
    by (simp add: sysInv_def sys')
qed

lemma sysInv_ThreadStart:
  assumes "sysInv sys" "sysStep (DoThreadStart tid ctxt) sys = Some sys'"
  shows "sysInv sys'"
proof -
  let ?s = "exec sys"
  from assms(2) have tid: "unat tid < MAX_THREADS" and unc: "threadStates ?s ! unat tid = UNCAPTURED"
    and sys': "sys' = \<lparr>exec = ?s\<lparr>hookLog := hookLog ?s @ [ThreadStartCall tid]\<rparr>,
        osThreads = (osThreads sys)[unat tid := Live 0]\<rparr>"
    by (auto simp: sysStep_def ThreadStart_def Let_def split: if_splits)
  from assms(1) have th: "threadInv sys"
    by (simp add: sysInv_def)
  have len: "length (osThreads sys) = MAX_THREADS"
    using th by (simp add: threadInv_def)
  have "t = unat (executorTid (exec sys)) \<and> \<not> executorInSyscall (exec sys)"
    if "t < MAX_THREADS" "(osThreads sys)[unat tid := Live 0] ! t = Live e" "e \<noteq> 0" for t e
    using that th tid len by (cases "t = unat tid") (auto simp: threadInv_def)
  moreover have "threadStates (exec sys) ! t = UNCAPTURED \<or>
      executorInSyscall (exec sys) \<and> t = unat (executorTid (exec sys))"
    if "t < MAX_THREADS" "(osThreads sys)[unat tid := Live 0] ! t = Live 0" for t
    using that th tid len unc by (cases "t = unat tid") (auto simp: threadInv_def)
  ultimately have "threadInv sys'"
    using len by (auto simp: threadInv_def sys')
  with assms(1) show ?thesis
    by (simp add: sysInv_def sys' stateInv_def wfState_def syscallInv_def)
qed

lemma sysInv_ThreadFini:
  assumes "sysInv sys" "sysStep (DoThreadFini tid) sys = Some sys'"
  shows "sysInv sys'"
proof -
  let ?s = "exec sys"
  from assms(2) have tid: "unat tid < MAX_THREADS"
    and sys': "sys' = \<lparr>exec = ?s\<lparr>hookLog := hookLog ?s @ [ThreadEndCall tid]\<rparr>,
        osThreads = (osThreads sys)[unat tid := Absent]\<rparr>"
    by (auto simp: sysStep_def ThreadFini_def split: if_splits)
  from assms(1) have th: "threadInv sys"
    by (simp add: sysInv_def)
  have len: "length (osThreads sys) = MAX_THREADS"
    using th by (simp add: threadInv_def)
  have "t = unat (executorTid (exec sys)) \<and> \<not> executorInSyscall (exec sys)"
    if "t < MAX_THREADS" "(osThreads sys)[unat tid := Absent] ! t = Live e" "e \<noteq> 0" for t e
    using that th tid len by (cases "t = unat tid") (auto simp: threadInv_def)
  moreover have "threadStates (exec sys) ! t = UNCAPTURED \<or>
      executorInSyscall (exec sys) \<and> t = unat (executorTid (exec sys))"
    if "t < MAX_THREADS" "(osThreads sys)[unat tid := Absent] ! t = Live 0" for t
    using that th tid len by (cases "t = unat tid") (auto simp: threadInv_def)
  ultimately have "threadInv sys'"
    using len by (auto simp: threadInv_def sys')
  with assms(1) show ?thesis
    by (simp add: sysInv_def sys' stateInv_def wfState_def syscallInv_def)
qed

lemma threadInv_api:
  assumes "threadInv sys" "executorTid s' = executorTid (exec sys)"
    "executorInSyscall s' = executorInSyscall (exec sys)"
    "\<And>t. t < MAX_THREADS \<Longrightarrow> threadStates (exec sys) ! t = UNCAPTURED \<Longrightarrow>
       threadStates s' ! t = UNCAPTURED"
  shows "threadInv (sys\<lparr>exec := s'\<rparr>)"
  using assms unfolding threadInv_def by auto

lemma sysInv_blockAfterSwitch:
  assumes "sysInv sys" "sysStep DoBlockAfterSwitch sys = Some sys'"
  shows "sysInv sys'"
proof -
  from assms(2) have sys': "sys' = sys\<lparr>exec := (exec sys)\<lparr>blockAfterSwitchcall := True\<rparr>\<rparr>"
    by (auto simp: sysStep_def apiResult_def blockAfterSwitch_def split: if_splits)
  have "threadInv sys'"
    unfolding sys' using assms(1) by (intro threadInv_api) (simp_all add: sysInv_def)
  with assms(1) show ?thesis
    by (simp add: sysInv_def sys' stateInv_def wfState_def syscallInv_def)
qed

lemma sysInv_blockIdleThread:
  assumes "sysInv sys" "sysStep (DoBlockIdleThread tid) sys = Some sys'"
  shows "sysInv sys'"
proof -
  let ?s = "exec sys"
  from assms(2) obtain s' where b: "blockIdleThread tid ?s = Inr s'" and sys': "sys' = sys\<lparr>exec := s'\<rparr>"
    by (rule sysStep_api [where g = "blockIdleThread tid"]) auto
  from assms(1) have lts: "length (threadStates ?s) = MAX_THREADS"
    by (simp add: sysInv_def stateInv_def wfState_def)
  from b have s': "s' = ?s\<lparr>threadStates := (threadStates ?s)[unat tid := BLOCKED],
      capturedThreads := capturedThreads ?s - 1\<rparr>" and idle: "threadStates ?s ! unat tid = IDLE"
    by (auto simp: blockIdleThread_def split: if_splits)
  have "threadInv sys'"
    unfolding sys' using assms(1) idle
    by (intro threadInv_api) (auto simp: sysInv_def s' intro!: update_other_state [where b = IDLE])
  moreover have "stateInv s'"
    using assms(1) b by (auto simp: sysInv_def intro: stateInv_blockIdleThread)
  moreover have "syscallInv s'"
    using assms(1) b by (auto simp: sysInv_def intro: syscallInv_blockIdleThread)
  ultimately show ?thesis
    by (simp add: sysInv_def sys')
qed

lemma sysInv_unblock:
  assumes "sysInv sys" "sysStep (DoUnblock tid) sys = Some sys'" "\<not> executorInSyscall (exec sys)"
  shows "sysInv sys'"
proof -
  let ?s = "exec sys"
  from assms(2) obtain s' where b: "unblock tid ?s = Inr s'" and sys': "sys' = sys\<lparr>exec := s'\<rparr>"
    by (rule sysStep_api [where g = "unblock tid"]) auto
  from assms(1) have lts: "length (threadStates ?s) = MAX_THREADS"
    by (simp add: sysInv_def stateInv_def wfState_def)
  from b have s': "s' = ?s\<lparr>threadStates := (threadStates ?s)[unat tid := IDLE],
      capturedThreads := capturedThreads ?s + 1\<rparr>" and blocked: "threadStates ?s ! unat tid = BLOCKED"
    by (auto simp: unblock_def split: if_splits)
  have "threadInv sys'"
    unfolding sys' using assms(1) blocked
    by (intro threadInv_api) (auto simp: sysInv_def s' intro!: update_other_state [where b = BLOCKED])
  moreover have "stateInv s'"
    using assms(1) b by (auto simp: sysInv_def intro: stateInv_unblock)
  moreover have "syscallInv s'"
    using assms(3) b by (rule syscallInv_unblock)
  ultimately show ?thesis
    by (simp add: sysInv_def sys')
qed

lemma sysInv_step:
  assumes "sysInv sys" "unblockOutsideSyscall c sys" "sysStep c sys = Some sys'"
  shows "sysInv sys'"
proof (cases c)
  case (DoThreadStart tid ctxt)
  with assms show ?thesis using sysInv_ThreadStart by blast
next
  case (DoThreadFini tid)
  with assms show ?thesis using sysInv_ThreadFini by blast
next
  case (DoTraceGuard ucb tid ctxt)
  with assms show ?thesis using sysInv_TraceGuard by blast
next
  case (DoTraceGuardWakeup tid)
  with assms show ?thesis using sysInv_TraceGuard_wakeup by blast
next
  case (DoSyscallGuard ucb tid ctxt)
  with assms show ?thesis using sysInv_SyscallGuard by blast
next
  case (DoSwitchHandler tid ctxt)
  with assms show ?thesis using sysInv_SwitchHandler by blast
next
  case (DoUncaptureAndSwitch ucb)
  with assms show ?thesis by (simp add: sysStep_def)
next
  case DoBlockAfterSwitch
  with assms show ?thesis using sysInv_blockAfterSwitch by blast
next
  case (DoBlockIdleThread tid)
  with assms show ?thesis using sysInv_blockIdleThread by blast
next
  case (DoUnblock tid)
  with assms show ?thesis using sysInv_unblock by auto
qed

lemma sysInv_runDisciplined:
  "sysInv sys \<Longrightarrow> runDisciplined cs sys = Some sys' \<Longrightarrow> sysInv sys'"
proof (induction cs arbitrary: sys)
  case Nil
  then show ?case by simp
next
  case (Cons c cs)
  from Cons.prems(2) obtain sys1 where ok: "unblockOutsideSyscall c sys"
    and step: "sysStep c sys = Some sys1" and rest: "runDisciplined cs sys1 = Some sys'"
    by (auto split: if_splits option.splits)
  from Cons.prems(1) ok step have "sysInv sys1"
    by (rule sysInv_step)
  with rest show ?case
    by (rule Cons.IH [rotated])
qed

subsection \<open>Every call but \<open>unblock\<close> keeps the executor alone in its syscall\<close>

text \<open>
  As long as \<open>unblock\<close> is not called while \<open>executorInSyscall\<close> is set, every state of a
  run has what \<open>TraceGuard\<close> asserts: \<open>executorInSyscall\<close> implies that the executor exists
  and is \<open>curTid\<close>, that this thread is \<open>RUNNING\<close>, and that \<open>capturedThreads\<close> is 1; and
  a thread for which \<open>TraceGuard\<close> is dispatched while its state is \<open>RUNNING\<close> is the
  executor back from such a syscall. All the guards, thread start and finish,
  \<open>blockAfterSwitch\<close> and \<open>blockIdleThread\<close> keep it, whenever they are called;
  \<open>blockIdleThread\<close> by its assertion \<open>capturedThreads > 1\<close>. \<open>unblock\<close> has no
  check of that kind.
\<close>

theorem executorInSyscall_sole_running_executor:
  assumes "runDisciplined cs initSystem = Some sys"
  shows "(executorInSyscall (exec sys) \<longrightarrow>
            executorTid (exec sys) = curTid (exec sys) \<and> executorTid (exec sys) \<noteq> - 1 \<and>
            unat (curTid (exec sys)) < MAX_THREADS \<and>
            threadStates (exec sys) ! unat (curTid (exec sys)) = RUNNING \<and>
            capturedThreads (exec sys) = 1) \<and>
         (dispatched (DoTraceGuard ucb tid ctxt) sys \<and>
          threadStates (exec sys) ! unat tid = RUNNING \<longrightarrow>
            executorInSyscall (exec sys) \<and> executorTid (exec sys) = tid \<and>
            curTid (exec sys) = tid \<and> capturedThreads (exec sys) = 1)"
proof -
  let ?s = "exec sys"
  have inv: "sysInv sys"
    using sysInv_init assms by (rule sysInv_runDisciplined)
  then have st: "stateInv ?s" and sc: "syscallInv ?s" and th: "threadInv sys"
    by (simp_all add: sysInv_def)
  have first: "executorTid ?s = curTid ?s \<and> executorTid ?s \<noteq> - 1 \<and>
      unat (curTid ?s) < MAX_THREADS \<and> threadStates ?s ! unat (curTid ?s) = RUNNING \<and>
      capturedThreads ?s = 1" if "executorInSyscall ?s"
    using that sc stateInv_running_counts(1) [OF st]
    by (auto simp: syscallInv_def dest: none_not_tid)
  have second: "executorInSyscall ?s \<and> executorTid ?s = tid \<and> curTid ?s = tid \<and>
      capturedThreads ?s = 1"
    if d: "dispatched (DoTraceGuard ucb tid ctxt) sys" and r: "threadStates ?s ! unat tid = RUNNING"
  proof -
    from d have tid: "unat tid < MAX_THREADS" and "osThreads sys ! unat tid = Live 0"
      by (auto simp: RunTraceGuard_def split: if_splits)
    with th r have flag: "executorInSyscall ?s" and me: "unat tid = unat (executorTid ?s)"
      by (auto simp: threadInv_def)
    from me have "executorTid ?s = tid"
      by (simp add: word_unat_eq_iff)
    with first [OF flag] flag show ?thesis
      by simp
  qed
  from first second show ?thesis
    by blast
qed

theorem executorInSyscall_sole_running_executor_witness:
  "\<exists>sys. runDisciplined soleSyscallCalls initSystem = Some sys \<and>
     executorInSyscall (exec sys) \<and> dispatched (DoTraceGuard (answers 0) 0 zeroContext) sys \<and>
     threadStates (exec sys) ! unat (0 :: u32) = RUNNING \<and>
     executorTid (exec sys) = 0 \<and> curTid (exec sys) = 0 \<and> capturedThreads (exec sys) = 1"
proof -
  obtain sys where run: "runDisciplined soleSyscallCalls initSystem = Some sys"
    and "dispatched (DoTraceGuard (answers 0) 0 zeroContext) sys"
    and "threadStates (exec sys) ! unat (0 :: u32) = RUNNING"
    by (simp add: soleSyscallCalls_def sys_simps run_simps)
  with executorInSyscall_sole_running_executor [OF run, of "answers 0" 0 zeroContext]
  show ?thesis
    by auto
qed

subsection \<open>\<open>unblock\<close> while the executor is in its syscall\<close>

text \<open>
  C10. Whenever \<open>executorInSyscall\<close> is set, the executor should be \<open>curTid\<close>, \<open>RUNNING\<close>
  and the only captured thread (\<open>capturedThreads = 1\<close>), so that a thread that comes back
  into \<open>TraceGuard\<close> in state \<open>RUNNING\<close> is the executor with \<open>capturedThreads = 1\<close>.
  \<open>TraceGuard\<close> asserts this itself: \<open>executorTid == tid\<close>, \<open>curTid == tid\<close> and
  \<open>capturedThreads == 1\<close> for the thread that comes back, \<open>capturedThreads == 2\<close> (the
  executor and the new thread) before the delayed uncapture. The code does not keep it:
  \<open>unblock\<close> checks only that its thread is \<open>BLOCKED\<close>. In the run \<open>syscallRaceCalls\<close>
  (threads 0 and 1 start and are captured, thread 1 is blocked, thread 0 goes into a
  syscall as the only captured thread, thread 1 is unblocked) \<open>executorInSyscall\<close> is set
  and \<open>capturedThreads\<close> is 2 at the end. From there \<open>TraceGuard\<close> is dispatched for thread
  0 on its return and fails its assertion; a third thread that starts fails the assertion
  of the delayed uncapture. Without the call of \<open>unblock\<close> the return of thread 0 succeeds,
  with \<open>capturedThreads = 1\<close>.
\<close>

theorem unblock_during_syscall_fails_assertions:
  "map_option (executorInSyscall \<circ> exec) (runSystem syscallRaceCalls initSystem) = Some True \<and>
   map_option (capturedThreads \<circ> exec) (runSystem syscallRaceCalls initSystem) = Some 2 \<and>
   map_option (executorTid \<circ> exec) (runSystem syscallRaceCalls initSystem) = Some 0 \<and>
   map_option (curTid \<circ> exec) (runSystem syscallRaceCalls initSystem) = Some 0 \<and>
   map_option (threadStates \<circ> exec) (runSystem syscallRaceCalls initSystem) =
     Some ((replicate MAX_THREADS UNCAPTURED)[0 := RUNNING, 1 := IDLE]) \<and>
   map_option (dispatched (DoTraceGuard (answers 1) 0 zeroContext))
     (runSystem syscallRaceCalls initSystem) = Some True \<and>
   map_option (TraceGuard (answers 1) 0 zeroContext \<circ> exec)
     (runSystem syscallRaceCalls initSystem) = Some (Inl AssertFail) \<and>
   map_option (dispatched (DoTraceGuard (answers 1) 2 zeroContext))
     (runSystem syscallRaceStartCalls initSystem) = Some True \<and>
   map_option (TraceGuard (answers 1) 2 zeroContext \<circ> exec)
     (runSystem syscallRaceStartCalls initSystem) = Some (Inl AssertFail) \<and>
   map_option (capturedThreads \<circ> exec)
     (runSystem (butlast syscallRaceCalls @ [DoTraceGuard (answers 1) 0 zeroContext]) initSystem) =
     Some 1 \<and>
   map_option (executorInSyscall \<circ> exec)
     (runSystem (butlast syscallRaceCalls @ [DoTraceGuard (answers 1) 0 zeroContext]) initSystem) =
     Some False"
  by (simp add: syscallRaceStartCalls_def syscallRaceCalls_def sys_simps run_simps)

end
